theory Spec2Isabelle
  imports Main "HOL-Library.Multiset"
begin

section \<open>The 100 prisoners simulation (Source.cpp)\<close>

text \<open>
  The program draws a permutation of the boxes, lets every prisoner search it with two
  strategies and counts the trials in which all prisoners succeed.

  Conventions of the embedding.
  \<^item> \<open>NUM_PRISONERS\<close> (= \<open>NUM_BOXES\<close>) is the parameter \<open>P\<close> of every function,
    \<open>NUM_ITERATIONS\<close> the parameter \<open>N\<close> of \<open>main\<close>; the source fixes them to 100
    and 1000000.
  \<^item> Box contents (\<open>uint16_t\<close>), prisoner indices and loop counters (\<open>size_t\<close>), the
    success counter (\<open>uint32_t\<close>) and the win counters (\<open>uint64_t\<close>) are \<open>nat\<close>. The
    source only copies, compares and increments them, and every increment is bounded by
    \<open>P\<close> or by \<open>N\<close>, so no operation wraps for the values the program can hold.
  \<^item> \<open>boxes\<close> reaches the strategies as a raw pointer. A read past the end of the
    vector is the fault \<open>OutOfBounds\<close>, not a value.
  \<^item> \<open>std::mt19937_64\<close> and \<open>std::shuffle\<close> belong to the C++ standard library,
    and the standard leaves the algorithm of \<open>std::shuffle\<close> to the implementation.
    They are the two fields of a parameter \<open>lib\<close>: constructing a generator from a
    seed, and shuffling a sequence with a generator, which returns the rearranged
    sequence and the advanced generator.
\<close>

subsection \<open>Faults and array reads\<close>

datatype fault = OutOfBounds

definition read :: "nat list \<Rightarrow> nat \<Rightarrow> fault + nat" where
  "read xs i = (if i < length xs then Inr (xs ! i) else Inl OutOfBounds)"

subsection \<open>The standard library as a parameter\<close>

record 'g stdlib =
  std_mt19937_64 :: "nat \<Rightarrow> 'g"
  std_shuffle :: "'g \<Rightarrow> nat list \<Rightarrow> nat list \<times> 'g"

text \<open>What the C++ standard promises of \<open>std::shuffle\<close>: the result is a rearrangement
  of the input.\<close>

definition shuffle_permutes :: "'g stdlib \<Rightarrow> bool" where
  "shuffle_permutes lib = (\<forall>g xs. mset (fst (std_shuffle lib g xs)) = mset xs)"

subsection \<open>Constants\<close>

definition MAX_BOXES_TO_OPEN :: "nat \<Rightarrow> nat" where
  "MAX_BOXES_TO_OPEN P = P div 2"

subsection \<open>State of one strategy evaluation\<close>

text \<open>The memory a strategy can reach through its arguments: the array behind the
  \<open>boxes\<close> pointer and the counter behind the reference \<open>succeed\<close>.\<close>

record strategy_state =
  boxes_mem :: "nat list"
  succeed :: nat

subsection \<open>RandomiseBoxes\<close>

definition RandomiseBoxes :: "'g stdlib \<Rightarrow> nat list \<Rightarrow> nat \<Rightarrow> nat list" where
  "RandomiseBoxes lib boxes seed = fst (std_shuffle lib (std_mt19937_64 lib seed) boxes)"

subsection \<open>RunMethod\<close>

text \<open>The inner \<open>for\<close> loop of one prisoner. The result is the value of \<open>i\<close> when the
  loop is left (\<open>K + 1\<close> after the \<open>break\<close>) and the state.\<close>

function RunMethod_open ::
  "nat \<Rightarrow> nat \<Rightarrow> strategy_state \<Rightarrow> nat \<Rightarrow> nat \<Rightarrow> fault + (nat \<times> strategy_state)" where
  "RunMethod_open K prisoner st pos i =
     (if i < K then
        (case read (boxes_mem st) pos of
           Inl e \<Rightarrow> Inl e
         | Inr v \<Rightarrow>
             if v = prisoner then Inr (K + 1, st\<lparr>succeed := succeed st + 1\<rparr>)
             else RunMethod_open K prisoner st v (i + 1))
      else Inr (i, st))"
  by pat_completeness auto
termination
  by (relation "measure (\<lambda>(K, prisoner, st, pos, i). K - i)") auto

text \<open>The loop over the prisoners. The result is the value of \<open>prisoner\<close> when the
  function returns (the failing prisoner after the early \<open>return\<close>, \<open>P\<close> at the end
  of the loop) and the state.\<close>

function RunMethod_prisoners ::
  "nat \<Rightarrow> nat \<Rightarrow> strategy_state \<Rightarrow> nat \<Rightarrow> fault + (nat \<times> strategy_state)" where
  "RunMethod_prisoners P K st prisoner =
     (if prisoner < P then
        (case RunMethod_open K prisoner st prisoner 0 of
           Inl e \<Rightarrow> Inl e
         | Inr (i, st') \<Rightarrow>
             if i \<noteq> K + 1 then Inr (prisoner, st')
             else RunMethod_prisoners P K st' (prisoner + 1))
      else Inr (prisoner, st))"
  by pat_completeness auto
termination
  by (relation "measure (\<lambda>(P, K, st, prisoner). P - prisoner)") auto

definition RunMethod :: "nat \<Rightarrow> strategy_state \<Rightarrow> fault + strategy_state" where
  "RunMethod P st =
     (case RunMethod_prisoners P (MAX_BOXES_TO_OPEN P) st 0 of
        Inl e \<Rightarrow> Inl e
      | Inr (prisoner, st') \<Rightarrow> Inr st')"

subsection \<open>RunRandom\<close>

text \<open>The inner \<open>for\<close> loop: \<open>boxes[search_order[i]]\<close> reads the vector
  \<open>search_order\<close> and then the array behind \<open>boxes\<close>.\<close>

function RunRandom_open ::
  "nat \<Rightarrow> nat \<Rightarrow> nat list \<Rightarrow> strategy_state \<Rightarrow> nat \<Rightarrow> fault + (nat \<times> strategy_state)" where
  "RunRandom_open K prisoner search_order st i =
     (if i < K then
        (case read search_order i of
           Inl e \<Rightarrow> Inl e
         | Inr b \<Rightarrow>
             (case read (boxes_mem st) b of
                Inl e \<Rightarrow> Inl e
              | Inr v \<Rightarrow>
                  if v = prisoner then Inr (K + 1, st\<lparr>succeed := succeed st + 1\<rparr>)
                  else RunRandom_open K prisoner search_order st (i + 1)))
      else Inr (i, st))"
  by pat_completeness auto
termination
  by (relation "measure (\<lambda>(K, prisoner, search_order, st, i). K - i)") auto

text \<open>The loop over the prisoners, with the local generator \<open>rng\<close> and the local
  vector \<open>search_order\<close>, which each round shuffles in place.\<close>

function RunRandom_prisoners ::
  "'g stdlib \<Rightarrow> nat \<Rightarrow> nat \<Rightarrow> 'g \<Rightarrow> nat list \<Rightarrow> strategy_state \<Rightarrow> nat
     \<Rightarrow> fault + (nat \<times> strategy_state)" where
  "RunRandom_prisoners lib P K rng search_order st prisoner =
     (if prisoner < P then
        (case std_shuffle lib rng search_order of
           (search_order', rng') \<Rightarrow>
             (case RunRandom_open K prisoner search_order' st 0 of
                Inl e \<Rightarrow> Inl e
              | Inr (i, st') \<Rightarrow>
                  if i \<noteq> K + 1 then Inr (prisoner, st')
                  else RunRandom_prisoners lib P K rng' search_order' st' (prisoner + 1)))
      else Inr (prisoner, st))"
  by pat_completeness auto
termination
  by (relation "measure (\<lambda>(lib, P, K, rng, search_order, st, prisoner). P - prisoner)") auto

definition RunRandom :: "'g stdlib \<Rightarrow> nat \<Rightarrow> strategy_state \<Rightarrow> nat \<Rightarrow> fault + strategy_state" where
  "RunRandom lib P st seed =
     (case RunRandom_prisoners lib P (MAX_BOXES_TO_OPEN P) (std_mt19937_64 lib seed) [0..<P] st 0 of
        Inl e \<Rightarrow> Inl e
      | Inr (prisoner, st') \<Rightarrow> Inr st')"

subsection \<open>Run\<close>

text \<open>The memory of one call of \<open>Run\<close>: its local vector \<open>boxes\<close> and the array of
  counters that the pointer \<open>won\<close> points into. \<open>Run\<close> receives \<open>&won[base]\<close>, so
  its \<open>won[0]\<close> and \<open>won[1]\<close> are the entries \<open>base\<close> and \<open>base + 1\<close> of the array.\<close>

record run_state =
  boxes :: "nat list"
  won :: "nat list"

definition increment :: "nat list \<Rightarrow> nat \<Rightarrow> fault + nat list" where
  "increment xs j = (if j < length xs then Inr (xs[j := xs ! j + 1]) else Inl OutOfBounds)"

text \<open>The body of the loop over the trials.\<close>

definition Run_trial :: "'g stdlib \<Rightarrow> nat \<Rightarrow> nat \<Rightarrow> run_state \<Rightarrow> nat \<Rightarrow> fault + run_state" where
  "Run_trial lib P base s it =
     (let shuffled = RandomiseBoxes lib (boxes s) it in
      case RunRandom lib P \<lparr>boxes_mem = shuffled, succeed = 0\<rparr> it of
        Inl e \<Rightarrow> Inl e
      | Inr r \<Rightarrow>
          (case RunMethod P \<lparr>boxes_mem = boxes_mem r, succeed = 0\<rparr> of
             Inl e \<Rightarrow> Inl e
           | Inr m \<Rightarrow>
               (case (if succeed r = P then increment (won s) base else Inr (won s)) of
                  Inl e \<Rightarrow> Inl e
                | Inr w \<Rightarrow>
                    (case (if succeed m = P then increment w (base + 1) else Inr w) of
                       Inl e \<Rightarrow> Inl e
                     | Inr w' \<Rightarrow> Inr \<lparr>boxes = boxes_mem m, won = w'\<rparr>))))"

function Run_trials ::
  "'g stdlib \<Rightarrow> nat \<Rightarrow> nat \<Rightarrow> run_state \<Rightarrow> nat \<Rightarrow> nat \<Rightarrow> fault + run_state" where
  "Run_trials lib P base s it endVal =
     (if it < endVal then
        (case Run_trial lib P base s it of
           Inl e \<Rightarrow> Inl e
         | Inr s' \<Rightarrow> Run_trials lib P base s' (it + 1) endVal)
      else Inr s)"
  by pat_completeness auto
termination
  by (relation "measure (\<lambda>(lib, P, base, s, it, endVal). endVal - it)") auto

text \<open>\<open>Run(startVal, endVal, &won[base])\<close>: the result is the array of counters.\<close>

definition Run :: "'g stdlib \<Rightarrow> nat \<Rightarrow> nat \<Rightarrow> nat \<Rightarrow> nat list \<Rightarrow> nat \<Rightarrow> fault + nat list" where
  "Run lib P startVal endVal w base =
     (case Run_trials lib P base \<lparr>boxes = [0..<P], won = w\<rparr> startVal endVal of
        Inl e \<Rightarrow> Inl e
      | Inr s \<Rightarrow> Inr (won s))"

subsection \<open>main\<close>

text \<open>
  \<open>main\<close> starts \<open>processor_count\<close> threads, runs the remainder itself, joins the
  threads and adds the counters up. The embedding runs the calls of \<open>Run\<close> one after
  the other, in the order in which the source starts them; \<open>processor_count\<close>, which
  the source computes from the hardware and which is at least 1, is the parameter
  \<open>pc\<close>. The result is the array \<open>won\<close> after the last loop: its entries 0 and 1
  are the totals printed. Thread \<open>i\<close> receives \<open>&won[i * 2]\<close> (\<open>thread_base\<close>), the
  remainder run \<open>&won[processor_count]\<close> (\<open>remainder_base\<close>). In the last loop
  \<open>i\<close> starts at 2, grows by 2 and stays below an even bound, so both reads are inside
  the array.
\<close>

definition thread_base :: "nat \<Rightarrow> nat" where
  "thread_base i = i * 2"

definition remainder_base :: "nat \<Rightarrow> nat" where
  "remainder_base pc = pc"

function spawn_threads ::
  "'g stdlib \<Rightarrow> nat \<Rightarrow> nat \<Rightarrow> nat \<Rightarrow> nat list \<Rightarrow> nat \<Rightarrow> fault + nat list" where
  "spawn_threads lib P stepSize pc w i =
     (if i < pc then
        (case Run lib P (stepSize * i) (stepSize * (i + 1)) w (thread_base i) of
           Inl e \<Rightarrow> Inl e
         | Inr w' \<Rightarrow> spawn_threads lib P stepSize pc w' (i + 1))
      else Inr w)"
  by pat_completeness auto
termination
  by (relation "measure (\<lambda>(lib, P, stepSize, pc, w, i). pc - i)") auto

function add_up :: "nat list \<Rightarrow> nat \<Rightarrow> nat \<Rightarrow> nat list" where
  "add_up w i bound =
     (if i < bound then
        (let w1 = w[0 := w ! 0 + w ! i];
             w2 = w1[1 := w1 ! 1 + w1 ! (i + 1)]
         in add_up w2 (i + 2) bound)
      else w)"
  by pat_completeness auto
termination
  by (relation "measure (\<lambda>(w, i, bound). bound - i)") auto

definition main :: "'g stdlib \<Rightarrow> nat \<Rightarrow> nat \<Rightarrow> nat \<Rightarrow> fault + nat list" where
  "main lib P N pc =
     (let w0 = replicate ((pc + 1) * 2) 0;
          stepSize = N div pc
      in case spawn_threads lib P stepSize pc w0 0 of
           Inl e \<Rightarrow> Inl e
         | Inr w1 \<Rightarrow>
             (case Run lib P (stepSize * pc) N w1 (remainder_base pc) of
                Inl e \<Rightarrow> Inl e
              | Inr w2 \<Rightarrow> Inr (add_up w2 2 ((pc + 1) * 2))))"

section \<open>Notions used to state the properties\<close>

subsection \<open>Permutations and cycles\<close>

definition in_range :: "nat list \<Rightarrow> bool" where
  "in_range bs = (\<forall>x \<in> set bs. x < length bs)"

definition is_permutation :: "nat \<Rightarrow> nat list \<Rightarrow> bool" where
  "is_permutation P bs = (length bs = P \<and> distinct bs \<and> (\<forall>x \<in> set bs. x < P))"

text \<open>The boxes a prisoner reaches in \<open>k\<close> moves from box \<open>pos\<close>, each move going to the
  box whose index is the number found.\<close>

fun opened :: "nat list \<Rightarrow> nat \<Rightarrow> nat \<Rightarrow> nat list" where
  "opened bs 0 pos = []"
| "opened bs (Suc k) pos = pos # opened bs k (bs ! pos)"

definition method_finds :: "nat list \<Rightarrow> nat \<Rightarrow> nat \<Rightarrow> bool" where
  "method_finds bs K p = (p \<in> set (map (\<lambda>b. bs ! b) (opened bs K p)))"

text \<open>The length of the cycle through \<open>p\<close>: the least positive number of moves that
  leads back to \<open>p\<close>.\<close>

definition cycle_length :: "nat list \<Rightarrow> nat \<Rightarrow> nat option" where
  "cycle_length bs p = find (\<lambda>j. ((\<lambda>b. bs ! b) ^^ j) p = p) [1..<Suc (length bs)]"

text \<open>The number of prisoners from \<open>p\<close> on that succeed before the first one fails.\<close>

definition survivors :: "(nat \<Rightarrow> bool) \<Rightarrow> nat \<Rightarrow> nat \<Rightarrow> nat" where
  "survivors finds p P = length (takeWhile finds [p..<P])"

subsection \<open>The search orders of RunRandom\<close>

text \<open>The vector and the generator after \<open>n\<close> more calls of \<open>std::shuffle\<close>.\<close>

fun shuffled :: "'g stdlib \<Rightarrow> nat \<Rightarrow> nat list \<times> 'g \<Rightarrow> nat list \<times> 'g" where
  "shuffled lib 0 s = s"
| "shuffled lib (Suc n) s = shuffled lib n (std_shuffle lib (snd s) (fst s))"

definition search_order_of :: "'g stdlib \<Rightarrow> nat \<Rightarrow> nat \<Rightarrow> nat \<Rightarrow> nat list" where
  "search_order_of lib P seed p = fst (shuffled lib (Suc p) ([0..<P], std_mt19937_64 lib seed))"

definition random_finds :: "'g stdlib \<Rightarrow> nat \<Rightarrow> nat list \<Rightarrow> nat \<Rightarrow> nat \<Rightarrow> bool" where
  "random_finds lib P bs seed p =
     (p \<in> set (map (\<lambda>b. bs ! b) (take (MAX_BOXES_TO_OPEN P) (search_order_of lib P seed p))))"

subsection \<open>The permutation of a trial\<close>

text \<open>The vector \<open>boxes\<close> after \<open>n\<close> more trials, the next of which has index \<open>it\<close>.\<close>

fun reshuffled :: "'g stdlib \<Rightarrow> nat list \<Rightarrow> nat \<Rightarrow> nat \<Rightarrow> nat list" where
  "reshuffled lib bs it 0 = bs"
| "reshuffled lib bs it (Suc n) = reshuffled lib (RandomiseBoxes lib bs it) (Suc it) n"

text \<open>The permutation that a call of \<open>Run\<close> starting at \<open>startVal\<close> evaluates in trial
  \<open>t\<close>.\<close>

definition trial_boxes :: "'g stdlib \<Rightarrow> nat \<Rightarrow> nat \<Rightarrow> nat \<Rightarrow> nat list" where
  "trial_boxes lib P startVal t = reshuffled lib [0..<P] startVal (Suc t - startVal)"

subsection \<open>The counters a call of Run writes\<close>

definition slots :: "nat \<Rightarrow> nat set" where
  "slots base = {base, base + 1}"

subsection \<open>All permutations of a list\<close>

fun interleave :: "'a \<Rightarrow> 'a list \<Rightarrow> 'a list list" where
  "interleave x [] = [[x]]"
| "interleave x (y # ys) = (x # y # ys) # map (\<lambda>zs. y # zs) (interleave x ys)"

fun arrangements :: "'a list \<Rightarrow> 'a list list" where
  "arrangements [] = [[]]"
| "arrangements (x # xs) = concat (map (interleave x) (arrangements xs))"

subsection \<open>Trials won\<close>

text \<open>A trial is a success of the cycle-following strategy when \<open>RunMethod\<close>, started
  with the counter at 0, returns the counter at \<open>P\<close>: the test of \<open>Run\<close>.\<close>

definition full_success :: "nat \<Rightarrow> nat list \<Rightarrow> bool" where
  "full_success P bs =
     (case RunMethod P \<lparr>boxes_mem = bs, succeed = 0\<rparr> of
        Inl e \<Rightarrow> False
      | Inr st \<Rightarrow> succeed st = P)"

text \<open>A trial is a success of the random search when \<open>RunRandom\<close>, started with the
  counter at 0, returns the counter at \<open>P\<close>.\<close>

definition random_success :: "'g stdlib \<Rightarrow> nat \<Rightarrow> nat list \<Rightarrow> nat \<Rightarrow> bool" where
  "random_success lib P bs seed =
     (case RunRandom lib P \<lparr>boxes_mem = bs, succeed = 0\<rparr> seed of
        Inl e \<Rightarrow> False
      | Inr st \<Rightarrow> succeed st = P)"

text \<open>The numbers of trials won by the random search and by the cycle-following strategy
  among \<open>n\<close> trials of one call of \<open>Run\<close>, the first of which has index \<open>it\<close> and
  finds the vector \<open>bs\<close>.\<close>

fun wins :: "'g stdlib \<Rightarrow> nat \<Rightarrow> nat list \<Rightarrow> nat \<Rightarrow> nat \<Rightarrow> nat \<times> nat" where
  "wins lib P bs it 0 = (0, 0)"
| "wins lib P bs it (Suc n) =
     (let bs' = RandomiseBoxes lib bs it;
          rest = wins lib P bs' (Suc it) n
      in ((if random_success lib P bs' it then 1 else 0) + fst rest,
          (if full_success P bs' then 1 else 0) + snd rest))"

text \<open>Every cycle of \<open>bs\<close> has length at most \<open>K\<close>.\<close>

definition cycles_at_most :: "nat \<Rightarrow> nat list \<Rightarrow> bool" where
  "cycles_at_most K bs =
     list_all (\<lambda>p. case cycle_length bs p of None \<Rightarrow> False | Some c \<Rightarrow> c \<le> K) [0..<length bs]"

subsection \<open>Two concrete generators\<close>

text \<open>
  Closed evaluations need a value for the parameter \<open>lib\<close>. The generator of
  \<open>turning_lib\<close> is a counter that starts at the seed, and its shuffle turns the
  sequence to the left by one place more than the counter and advances the counter;
  \<open>still_lib\<close> leaves every sequence as it is. Both return a rearrangement of their
  input, which is all that the proofs below ask of \<open>std::shuffle\<close>.
\<close>

definition turning_lib :: "nat stdlib" where
  "turning_lib = \<lparr>std_mt19937_64 = (\<lambda>seed. seed),
                  std_shuffle = (\<lambda>g xs. (rotate (Suc g) xs, Suc g))\<rparr>"

definition still_lib :: "unit stdlib" where
  "still_lib = \<lparr>std_mt19937_64 = (\<lambda>seed. ()), std_shuffle = (\<lambda>g xs. (xs, g))\<rparr>"

section \<open>Properties\<close>

declare RunMethod_open.simps [simp del] RunMethod_prisoners.simps [simp del]
  RunRandom_open.simps [simp del] RunRandom_prisoners.simps [simp del]
  Run_trials.simps [simp del] spawn_threads.simps [simp del] add_up.simps [simp del]

subsection \<open>Permutations and cycles\<close>

lemma is_permutation_in_range: "is_permutation P bs \<Longrightarrow> in_range bs"
  by (simp add: is_permutation_def in_range_def)

lemma is_permutation_bij:
  assumes "is_permutation P bs"
  shows "bij_betw (\<lambda>b. bs ! b) {..<P} {..<P}"
proof -
  from assms have len: "length bs = P" and d: "distinct bs" and r: "\<forall>x \<in> set bs. x < P"
    by (simp_all add: is_permutation_def)
  have inj: "inj_on (\<lambda>b. bs ! b) {..<P}"
    using d len by (auto simp: inj_on_def nth_eq_iff_index_eq)
  have img: "(\<lambda>b. bs ! b) ` {..<P} = set bs"
    using len by (auto simp: set_conv_nth image_iff)
  have "set bs \<subseteq> {..<P}" using r by auto
  moreover have "card (set bs) = card {..<P}"
    using d len by (simp add: distinct_card)
  ultimately have "set bs = {..<P}"
    by (simp add: card_subset_eq)
  with inj img show ?thesis by (simp add: bij_betw_def)
qed

lemma opened_funpow: "opened bs k pos = map (\<lambda>j. ((\<lambda>b. bs ! b) ^^ j) pos) [0..<k]"
proof (induction k arbitrary: pos)
  case 0
  show ?case by simp
next
  case (Suc k)
  have "[0..<Suc k] = 0 # map Suc [0..<k]"
    by (simp add: upt_conv_Cons map_Suc_upt del: upt_Suc)
  then show ?case
    using Suc.IH [of "bs ! pos"] by (simp add: funpow_swap1 comp_def del: upt_Suc)
qed

lemma method_finds_iff:
  "method_finds bs K p \<longleftrightarrow> (\<exists>j. 0 < j \<and> j \<le> K \<and> ((\<lambda>b. bs ! b) ^^ j) p = p)"
proof
  assume "method_finds bs K p"
  then obtain j where "j < K" "bs ! (((\<lambda>b. bs ! b) ^^ j) p) = p"
    by (auto simp: method_finds_def opened_funpow)
  then have "0 < Suc j \<and> Suc j \<le> K \<and> ((\<lambda>b. bs ! b) ^^ Suc j) p = p" by simp
  then show "\<exists>j. 0 < j \<and> j \<le> K \<and> ((\<lambda>b. bs ! b) ^^ j) p = p" by blast
next
  assume "\<exists>j. 0 < j \<and> j \<le> K \<and> ((\<lambda>b. bs ! b) ^^ j) p = p"
  then obtain j where j: "0 < j" "j \<le> K" "((\<lambda>b. bs ! b) ^^ j) p = p" by blast
  then obtain k where k: "j = Suc k" by (cases j) auto
  with j have "k < K" "bs ! (((\<lambda>b. bs ! b) ^^ k) p) = p" by simp_all
  then show "method_finds bs K p"
    by (force simp: method_finds_def opened_funpow image_iff)
qed

lemma permutation_returns:
  assumes perm: "is_permutation P bs" and p: "p < P"
  shows "\<exists>j. 0 < j \<and> j \<le> P \<and> ((\<lambda>b. bs ! b) ^^ j) p = p"
proof -
  let ?f = "\<lambda>b. bs ! b"
  have bij: "\<And>n. bij_betw (?f ^^ n) {..<P} {..<P}"
    by (rule bij_betw_funpow) (rule is_permutation_bij [OF perm])
  have mem: "\<And>n. (?f ^^ n) p \<in> {..<P}"
    using bij p by (auto simp: bij_betw_def)
  have "(\<lambda>n. (?f ^^ n) p) ` {..P} \<subseteq> {..<P}" using mem by auto
  then have "card ((\<lambda>n. (?f ^^ n) p) ` {..P}) \<le> card {..<P}"
    by (intro card_mono) auto
  then have "card ((\<lambda>n. (?f ^^ n) p) ` {..P}) < card {..P}" by simp
  then have "\<not> inj_on (\<lambda>n. (?f ^^ n) p) {..P}"
    by (rule pigeonhole)
  then obtain a b where ab: "a \<le> P" "b \<le> P" "a < b" "(?f ^^ a) p = (?f ^^ b) p"
    by (auto simp: inj_on_def) (metis linorder_neqE_nat)
  have "(?f ^^ b) p = (?f ^^ a) ((?f ^^ (b - a)) p)"
    using ab(3) funpow_add [of a "b - a" ?f] by simp
  with ab(4) have "(?f ^^ a) p = (?f ^^ a) ((?f ^^ (b - a)) p)" by simp
  then have "(?f ^^ (b - a)) p = p"
    using bij [of a] mem [of "b - a"] p by (auto simp: bij_betw_def inj_on_def)
  moreover have "0 < b - a" "b - a \<le> P" using ab by simp_all
  ultimately show ?thesis by blast
qed

lemma cycle_length_least:
  assumes perm: "is_permutation P bs" and p: "p < P"
  shows "\<exists>c. cycle_length bs p = Some c \<and> 0 < c \<and> c \<le> P \<and> ((\<lambda>b. bs ! b) ^^ c) p = p
           \<and> (\<forall>j. 0 < j \<and> j < c \<longrightarrow> ((\<lambda>b. bs ! b) ^^ j) p \<noteq> p)"
proof -
  let ?Q = "\<lambda>j. ((\<lambda>b. bs ! b) ^^ j) p = p"
  have len: "length bs = P" using perm by (simp add: is_permutation_def)
  obtain j where j: "0 < j" "j \<le> P" "?Q j"
    using permutation_returns [OF perm p] by blast
  then have "j \<in> set [1..<Suc (length bs)]" using len by (simp del: upt_Suc)
  with j(3) have "find ?Q [1..<Suc (length bs)] \<noteq> None"
    by (auto simp: find_None_iff)
  then obtain c where c: "find ?Q [1..<Suc (length bs)] = Some c" by auto
  then obtain i where i: "i < length [1..<Suc (length bs)]" "?Q ([1..<Suc (length bs)] ! i)"
      "c = [1..<Suc (length bs)] ! i" "\<forall>k<i. \<not> ?Q ([1..<Suc (length bs)] ! k)"
    by (auto simp: find_Some_iff)
  have ci: "c = Suc i" using i(1,3) by (simp add: nth_upt del: upt_Suc)
  have least: "\<forall>m. 0 < m \<and> m < c \<longrightarrow> \<not> ?Q m"
  proof (intro allI impI)
    fix m assume m: "0 < m \<and> m < c"
    then obtain k where k: "m = Suc k" by (cases m) auto
    with m ci have "k < i" by simp
    with i(4) have "\<not> ?Q ([1..<Suc (length bs)] ! k)" by blast
    moreover have "[1..<Suc (length bs)] ! k = Suc k"
      using \<open>k < i\<close> i(1) by (simp add: nth_upt del: upt_Suc)
    ultimately show "\<not> ?Q m" using k by simp
  qed
  have "0 < c" "c \<le> P" "?Q c" using ci i(1,2,3) len by (simp_all del: upt_Suc)
  with c least show ?thesis by (auto simp: cycle_length_def)
qed

lemma method_finds_cycle:
  assumes perm: "is_permutation P bs" and p: "p < P"
  shows "method_finds bs K p \<longleftrightarrow> (\<exists>c. cycle_length bs p = Some c \<and> c \<le> K)"
proof -
  obtain c where c: "cycle_length bs p = Some c" "0 < c" "((\<lambda>b. bs ! b) ^^ c) p = p"
      "\<forall>j. 0 < j \<and> j < c \<longrightarrow> ((\<lambda>b. bs ! b) ^^ j) p \<noteq> p"
    using cycle_length_least [OF perm p] by blast
  show ?thesis
  proof
    assume "method_finds bs K p"
    then obtain j where j: "0 < j" "j \<le> K" "((\<lambda>b. bs ! b) ^^ j) p = p"
      by (auto simp: method_finds_iff)
    with c(4) have "\<not> j < c" by blast
    with j(2) c(1) show "\<exists>c. cycle_length bs p = Some c \<and> c \<le> K" by simp
  next
    assume "\<exists>c. cycle_length bs p = Some c \<and> c \<le> K"
    with c(1) have "c \<le> K" by simp
    with c(2,3) show "method_finds bs K p" by (auto simp: method_finds_iff)
  qed
qed

subsection \<open>Counting the prisoners before the first failure\<close>

lemma survivors_step:
  "p < P \<Longrightarrow> survivors finds p P = (if finds p then Suc (survivors finds (Suc p) P) else 0)"
  by (simp add: survivors_def upt_conv_Cons)

lemma survivors_done: "\<not> p < P \<Longrightarrow> survivors finds p P = 0"
  by (simp add: survivors_def)

lemma survivors_le: "p \<le> P \<Longrightarrow> p + survivors finds p P \<le> P"
  using length_takeWhile_le [of finds "[p..<P]"] by (simp add: survivors_def)

lemma survivors_all: "\<forall>q. p \<le> q \<and> q < p + survivors finds p P \<longrightarrow> finds q"
proof (intro allI impI)
  fix q assume q: "p \<le> q \<and> q < p + survivors finds p P"
  then have lt: "q - p < length (takeWhile finds [p..<P])" unfolding survivors_def by linarith
  then have "finds (takeWhile finds [p..<P] ! (q - p))"
    using nth_mem set_takeWhileD by metis
  moreover have "takeWhile finds [p..<P] ! (q - p) = [p..<P] ! (q - p)"
    using lt by (rule takeWhile_nth)
  moreover have "q - p < length [p..<P]"
    using lt length_takeWhile_le [of finds "[p..<P]"] by linarith
  ultimately show "finds q" using q by simp
qed

lemma survivors_stop: "p + survivors finds p P < P \<Longrightarrow> \<not> finds (p + survivors finds p P)"
proof -
  assume a: "p + survivors finds p P < P"
  then have "length (takeWhile finds [p..<P]) < length [p..<P]" by (simp add: survivors_def)
  then have "\<not> finds ([p..<P] ! length (takeWhile finds [p..<P]))"
    by (rule nth_length_takeWhile)
  with a show ?thesis by (simp add: survivors_def)
qed

lemma survivors_cong:
  "(\<And>q. p \<le> q \<Longrightarrow> q < P \<Longrightarrow> f q = g q) \<Longrightarrow> survivors f p P = survivors g p P"
  unfolding survivors_def by (rule arg_cong [where f = length], rule takeWhile_cong) auto


subsection \<open>The loops of RunMethod\<close>

lemma RunMethod_open_char:
  "in_range (boxes_mem st) \<Longrightarrow> pos < length (boxes_mem st) \<Longrightarrow> i \<le> K \<Longrightarrow>
   RunMethod_open K p st pos i =
     (if p \<in> set (map (\<lambda>b. boxes_mem st ! b) (opened (boxes_mem st) (K - i) pos))
      then Inr (K + 1, st\<lparr>succeed := succeed st + 1\<rparr>) else Inr (K, st))"
proof (induction K p st pos i rule: RunMethod_open.induct)
  case (1 K prisoner st pos i)
  show ?case
  proof (cases "i < K")
    case False
    with 1(4) have "i = K" by simp
    then show ?thesis by (simp add: RunMethod_open.simps)
  next
    case True
    then have k: "K - i = Suc (K - (i + 1))" by simp
    have rd: "read (boxes_mem st) pos = Inr (boxes_mem st ! pos)"
      using 1(3) by (simp add: read_def)
    have nxt: "boxes_mem st ! pos < length (boxes_mem st)"
      using 1(2,3) by (simp add: in_range_def)
    show ?thesis
    proof (cases "boxes_mem st ! pos = prisoner")
      case True
      with \<open>i < K\<close> rd k show ?thesis
        by (subst RunMethod_open.simps) simp
    next
      case False
      have "RunMethod_open K prisoner st pos i = RunMethod_open K prisoner st (boxes_mem st ! pos) (i + 1)"
        using \<open>i < K\<close> rd False by (subst RunMethod_open.simps) simp
      also have "\<dots> = (if prisoner \<in> set (map (\<lambda>b. boxes_mem st ! b) (opened (boxes_mem st) (K - (i + 1)) (boxes_mem st ! pos)))
      then Inr (K + 1, st\<lparr>succeed := succeed st + 1\<rparr>) else Inr (K, st))"
        using 1(1)[OF \<open>i < K\<close> rd False 1(2) nxt] \<open>i < K\<close> by simp
      finally show ?thesis using k False by simp
    qed
  qed
qed

lemma RunMethod_prisoners_char:
  "in_range (boxes_mem st) \<Longrightarrow> P \<le> length (boxes_mem st) \<Longrightarrow>
   RunMethod_prisoners P K st p =
     Inr (p + survivors (method_finds (boxes_mem st) K) p P,
          st\<lparr>succeed := succeed st + survivors (method_finds (boxes_mem st) K) p P\<rparr>)"
proof (induction P K st p rule: RunMethod_prisoners.induct)
  case (1 P K st prisoner)
  show ?case
  proof (cases "prisoner < P")
    case False
    then show ?thesis
      by (subst RunMethod_prisoners.simps) (simp add: survivors_done)
  next
    case True
    have opn: "RunMethod_open K prisoner st prisoner 0 =
        (if method_finds (boxes_mem st) K prisoner
         then Inr (K + 1, st\<lparr>succeed := succeed st + 1\<rparr>) else Inr (K, st))"
      using RunMethod_open_char [OF 1(2), of prisoner 0 K prisoner] True 1(3)
      by (simp add: method_finds_def)
    show ?thesis
    proof (cases "method_finds (boxes_mem st) K prisoner")
      case False
      with True opn show ?thesis
        by (subst RunMethod_prisoners.simps) (simp add: survivors_step)
    next
      case found: True
      let ?st = "st\<lparr>succeed := succeed st + 1\<rparr>"
      have "RunMethod_prisoners P K st prisoner = RunMethod_prisoners P K ?st (prisoner + 1)"
        using True opn found by (subst RunMethod_prisoners.simps) simp
      also have "\<dots> = Inr (prisoner + 1 + survivors (method_finds (boxes_mem ?st) K) (prisoner + 1) P,
          ?st\<lparr>succeed := succeed ?st + survivors (method_finds (boxes_mem ?st) K) (prisoner + 1) P\<rparr>)"
        using 1(1) [of "(K + 1, ?st)" "K + 1" ?st] True opn found 1(2,3)
        by simp
      finally show ?thesis using True found by (simp add: survivors_step)
    qed
  qed
qed

subsection \<open>The loops of RunRandom\<close>

lemma shuffled_mset:
  "shuffle_permutes lib \<Longrightarrow> mset (fst (shuffled lib n s)) = mset (fst s)"
  by (induction n arbitrary: s) (simp_all add: shuffle_permutes_def)

lemma mset_upt_bounds:
  assumes "mset xs = mset [0..<P]"
  shows "length xs = P" and "\<forall>x \<in> set xs. x < P" and "distinct xs"
proof -
  show "length xs = P" using mset_eq_length [OF assms] by simp
  show "\<forall>x \<in> set xs. x < P" using mset_eq_setD [OF assms] by auto
  show "distinct xs" using assms distinct_upt mset_eq_imp_distinct_iff by blast
qed

lemma RunRandom_open_char:
  "K \<le> length so \<Longrightarrow> \<forall>b \<in> set so. b < length (boxes_mem st) \<Longrightarrow> i \<le> K \<Longrightarrow>
   RunRandom_open K p so st i =
     (if p \<in> set (map (\<lambda>b. boxes_mem st ! b) (drop i (take K so)))
      then Inr (K + 1, st\<lparr>succeed := succeed st + 1\<rparr>) else Inr (K, st))"
proof (induction K p so st i rule: RunRandom_open.induct)
  case (1 K prisoner so st i)
  show ?case
  proof (cases "i < K")
    case False
    with 1(4) have "i = K" by simp
    then show ?thesis by (simp add: RunRandom_open.simps)
  next
    case True
    have rd1: "read so i = Inr (so ! i)"
      using True 1(2) by (simp add: read_def)
    have "so ! i \<in> set so" using True 1(2) by simp
    then have rd2: "read (boxes_mem st) (so ! i) = Inr (boxes_mem st ! (so ! i))"
      using 1(3) by (simp add: read_def)
    have dr: "drop i (take K so) = so ! i # drop (i + 1) (take K so)"
      using True 1(2) Cons_nth_drop_Suc [of i "take K so"] by simp
    show ?thesis
    proof (cases "boxes_mem st ! (so ! i) = prisoner")
      case True
      with \<open>i < K\<close> rd1 rd2 dr show ?thesis
        by (subst RunRandom_open.simps) simp
    next
      case False
      have "RunRandom_open K prisoner so st i = RunRandom_open K prisoner so st (i + 1)"
        using \<open>i < K\<close> rd1 rd2 False by (subst RunRandom_open.simps) simp
      also have "\<dots> = (if prisoner \<in> set (map (\<lambda>b. boxes_mem st ! b) (drop (i + 1) (take K so)))
          then Inr (K + 1, st\<lparr>succeed := succeed st + 1\<rparr>) else Inr (K, st))"
        using 1(1) [OF \<open>i < K\<close> rd1 rd2 False 1(2,3)] \<open>i < K\<close> by simp
      finally show ?thesis using dr False by auto
    qed
  qed
qed

lemma RunRandom_prisoners_char:
  "shuffle_permutes lib \<Longrightarrow> mset so = mset [0..<P] \<Longrightarrow> P \<le> length (boxes_mem st) \<Longrightarrow> K \<le> P \<Longrightarrow>
   RunRandom_prisoners lib P K rng so st p =
     Inr (p + survivors (\<lambda>q. q \<in> set (map (\<lambda>b. boxes_mem st ! b)
                 (take K (fst (shuffled lib (Suc (q - p)) (so, rng)))))) p P,
          st\<lparr>succeed := succeed st + survivors (\<lambda>q. q \<in> set (map (\<lambda>b. boxes_mem st ! b)
                 (take K (fst (shuffled lib (Suc (q - p)) (so, rng)))))) p P\<rparr>)"
proof (induction lib P K rng so st p rule: RunRandom_prisoners.induct)
  case (1 lib P K rng so st prisoner)
  let ?bs = "boxes_mem st"
  let ?finds = "\<lambda>q. q \<in> set (map (\<lambda>b. ?bs ! b)
                 (take K (fst (shuffled lib (Suc (q - prisoner)) (so, rng)))))"
  show ?case
  proof (cases "prisoner < P")
    case False
    then show ?thesis
      by (subst RunRandom_prisoners.simps) (simp add: survivors_done)
  next
    case True
    obtain so' rng' where sh: "std_shuffle lib rng so = (so', rng')"
      by (cases "std_shuffle lib rng so")
    have ms: "mset so' = mset [0..<P]"
      using 1(2,3) sh by (metis fst_conv shuffle_permutes_def)
    note b = mset_upt_bounds [OF ms]
    have inb: "\<forall>b \<in> set so'. b < length (boxes_mem st)"
      using b(2) 1(4) by auto
    have "K \<le> length so'" using b(1) 1(5) by simp
    from RunRandom_open_char [OF this inb, of 0 prisoner]
    have opn: "RunRandom_open K prisoner so' st 0 =
        (if ?finds prisoner then Inr (K + 1, st\<lparr>succeed := succeed st + 1\<rparr>) else Inr (K, st))"
      using sh by simp
    show ?thesis
    proof (cases "?finds prisoner")
      case False
      with True opn sh show ?thesis
        by (subst RunRandom_prisoners.simps) (simp add: survivors_step)
    next
      case found: True
      let ?st = "st\<lparr>succeed := succeed st + 1\<rparr>"
      let ?finds' = "\<lambda>q. q \<in> set (map (\<lambda>b. boxes_mem ?st ! b)
                 (take K (fst (shuffled lib (Suc (q - (prisoner + 1))) (so', rng')))))"
      have eq: "survivors ?finds' (prisoner + 1) P = survivors ?finds (prisoner + 1) P"
      proof (rule survivors_cong)
        fix q assume "prisoner + 1 \<le> q" "q < P"
        then have "Suc (q - prisoner) = Suc (Suc (q - (prisoner + 1)))" by simp
        then show "?finds' q = ?finds q" using sh by simp
      qed
      have "RunRandom_prisoners lib P K rng so st prisoner =
            RunRandom_prisoners lib P K rng' so' ?st (prisoner + 1)"
        using True opn found sh by (subst RunRandom_prisoners.simps) simp
      also have "\<dots> = Inr (prisoner + 1 + survivors ?finds' (prisoner + 1) P,
          ?st\<lparr>succeed := succeed ?st + survivors ?finds' (prisoner + 1) P\<rparr>)"
      proof -
        have o: "RunRandom_open K prisoner so' st 0 = Inr (K + 1, ?st)"
          using opn found by simp
        show ?thesis
          using 1(1) [OF True sh [symmetric] o refl] ms 1(2,4,5) by simp
      qed
      finally show ?thesis using True found eq by (simp add: survivors_step)
    qed
  qed
qed

subsection \<open>The strategies as a whole\<close>

lemma survivors_full: "survivors finds 0 P = P \<longleftrightarrow> (\<forall>p<P. finds p)"
proof
  assume a: "survivors finds 0 P = P"
  show "\<forall>p<P. finds p" using survivors_all [of 0 finds P] a by simp
next
  assume "\<forall>p<P. finds p"
  then have "takeWhile finds [0..<P] = [0..<P]" by (simp add: takeWhile_eq_all_conv)
  then have "length (takeWhile finds [0..<P]) = length [0..<P]" by (rule arg_cong)
  then show "survivors finds 0 P = P" by (simp add: survivors_def)
qed

lemma survivors_first_failure:
  assumes "\<exists>p<P. \<not> finds p"
  shows "survivors finds 0 P < P" and "\<not> finds (survivors finds 0 P)"
    and "\<forall>r<survivors finds 0 P. finds r"
proof -
  have "survivors finds 0 P \<le> P" using survivors_le [of 0 P finds] by simp
  moreover have "survivors finds 0 P \<noteq> P" using assms by (simp add: survivors_full)
  ultimately show lt: "survivors finds 0 P < P" by simp
  then show "\<not> finds (survivors finds 0 P)" using survivors_stop [of 0 finds P] by simp
  show "\<forall>r<survivors finds 0 P. finds r" using survivors_all [of 0 finds P] by simp
qed

lemma RunMethod_char:
  assumes "in_range bs" and "P \<le> length bs"
  shows "RunMethod P \<lparr>boxes_mem = bs, succeed = s\<rparr> =
    Inr \<lparr>boxes_mem = bs, succeed = s + survivors (method_finds bs (MAX_BOXES_TO_OPEN P)) 0 P\<rparr>"
  using assms
    RunMethod_prisoners_char [of "\<lparr>boxes_mem = bs, succeed = s\<rparr>" P "MAX_BOXES_TO_OPEN P" 0]
  by (simp add: RunMethod_def)

lemma RunRandom_prisoners_start:
  assumes "shuffle_permutes lib" and "P \<le> length bs"
  shows "RunRandom_prisoners lib P (MAX_BOXES_TO_OPEN P) (std_mt19937_64 lib seed) [0..<P]
           \<lparr>boxes_mem = bs, succeed = s\<rparr> 0 =
         Inr (survivors (random_finds lib P bs seed) 0 P,
              \<lparr>boxes_mem = bs, succeed = s + survivors (random_finds lib P bs seed) 0 P\<rparr>)"
proof -
  have K: "MAX_BOXES_TO_OPEN P \<le> P" by (simp add: MAX_BOXES_TO_OPEN_def)
  have f: "(\<lambda>q. q \<in> set (map (\<lambda>b. boxes_mem \<lparr>boxes_mem = bs, succeed = s\<rparr> ! b)
                 (take (MAX_BOXES_TO_OPEN P)
                    (fst (shuffled lib (Suc (q - 0)) ([0..<P], std_mt19937_64 lib seed))))))
           = random_finds lib P bs seed"
    by (rule ext) (simp add: random_finds_def search_order_of_def)
  show ?thesis
    using RunRandom_prisoners_char [OF assms(1) refl, of P "\<lparr>boxes_mem = bs, succeed = s\<rparr>"
        "MAX_BOXES_TO_OPEN P" "std_mt19937_64 lib seed" 0] assms(2) K
    unfolding f by simp
qed

lemma RunRandom_char:
  assumes "shuffle_permutes lib" and "P \<le> length bs"
  shows "RunRandom lib P \<lparr>boxes_mem = bs, succeed = s\<rparr> seed =
    Inr \<lparr>boxes_mem = bs, succeed = s + survivors (random_finds lib P bs seed) 0 P\<rparr>"
  unfolding RunRandom_def RunRandom_prisoners_start [OF assms] by simp

lemma opened_in_range:
  "in_range bs \<Longrightarrow> pos < length bs \<Longrightarrow> \<forall>x \<in> set (opened bs k pos). x < length bs"
proof (induction k arbitrary: pos)
  case 0
  show ?case by simp
next
  case (Suc k)
  have "bs ! pos < length bs" using Suc.prems by (simp add: in_range_def)
  from Suc.IH [OF Suc.prems(1) this] Suc.prems(2) show ?case by simp
qed

subsection \<open>The strategies leave the boxes alone\<close>

lemma RunMethod_open_frame:
  "RunMethod_open K p st pos i = Inr (j, st') \<Longrightarrow> boxes_mem st' = boxes_mem st"
proof (induction K p st pos i rule: RunMethod_open.induct)
  case (1 K prisoner st pos i)
  show ?case
  proof (cases "i < K")
    case False
    with "1.prems" show ?thesis by (subst (asm) RunMethod_open.simps) simp
  next
    case True
    with "1.prems" obtain v where rd: "read (boxes_mem st) pos = Inr v"
      by (subst (asm) RunMethod_open.simps) (auto split: sum.splits)
    show ?thesis
    proof (cases "v = prisoner")
      case True
      with "1.prems" \<open>i < K\<close> rd show ?thesis
        by (subst (asm) RunMethod_open.simps) auto
    next
      case False
      with "1.prems" \<open>i < K\<close> rd
      have "RunMethod_open K prisoner st v (i + 1) = Inr (j, st')"
        by (subst (asm) RunMethod_open.simps) simp
      from "1.IH" [OF \<open>i < K\<close> rd False this] show ?thesis .
    qed
  qed
qed

lemma RunMethod_prisoners_frame:
  "RunMethod_prisoners P K st p = Inr (q, st') \<Longrightarrow> boxes_mem st' = boxes_mem st"
proof (induction P K st p rule: RunMethod_prisoners.induct)
  case (1 P K st prisoner)
  show ?case
  proof (cases "prisoner < P")
    case False
    with "1.prems" show ?thesis by (subst (asm) RunMethod_prisoners.simps) simp
  next
    case True
    with "1.prems" obtain i st1 where o: "RunMethod_open K prisoner st prisoner 0 = Inr (i, st1)"
      by (subst (asm) RunMethod_prisoners.simps) (auto split: sum.splits)
    have f: "boxes_mem st1 = boxes_mem st" using o by (rule RunMethod_open_frame)
    show ?thesis
    proof (cases "i \<noteq> K + 1")
      case True
      with "1.prems" \<open>prisoner < P\<close> o f show ?thesis
        by (subst (asm) RunMethod_prisoners.simps) auto
    next
      case False
      with "1.prems" \<open>prisoner < P\<close> o
      have "RunMethod_prisoners P K st1 (prisoner + 1) = Inr (q, st')"
        by (subst (asm) RunMethod_prisoners.simps) simp
      from "1.IH" [OF \<open>prisoner < P\<close> o refl False this] f show ?thesis by simp
    qed
  qed
qed

lemma RunRandom_open_frame:
  "RunRandom_open K p so st i = Inr (j, st') \<Longrightarrow> boxes_mem st' = boxes_mem st"
proof (induction K p so st i rule: RunRandom_open.induct)
  case (1 K prisoner so st i)
  show ?case
  proof (cases "i < K")
    case False
    with "1.prems" show ?thesis by (subst (asm) RunRandom_open.simps) simp
  next
    case True
    with "1.prems" obtain b where rd1: "read so i = Inr b"
      by (subst (asm) RunRandom_open.simps) (auto split: sum.splits)
    with True "1.prems" obtain v where rd2: "read (boxes_mem st) b = Inr v"
      by (subst (asm) RunRandom_open.simps) (auto split: sum.splits)
    show ?thesis
    proof (cases "v = prisoner")
      case True
      with "1.prems" \<open>i < K\<close> rd1 rd2 show ?thesis
        by (subst (asm) RunRandom_open.simps) auto
    next
      case False
      with "1.prems" \<open>i < K\<close> rd1 rd2
      have "RunRandom_open K prisoner so st (i + 1) = Inr (j, st')"
        by (subst (asm) RunRandom_open.simps) simp
      from "1.IH" [OF \<open>i < K\<close> rd1 rd2 False this] show ?thesis .
    qed
  qed
qed

lemma RunRandom_prisoners_frame:
  "RunRandom_prisoners lib P K rng so st p = Inr (q, st') \<Longrightarrow> boxes_mem st' = boxes_mem st"
proof (induction lib P K rng so st p rule: RunRandom_prisoners.induct)
  case (1 lib P K rng so st prisoner)
  show ?case
  proof (cases "prisoner < P")
    case False
    with "1.prems" show ?thesis by (subst (asm) RunRandom_prisoners.simps) simp
  next
    case True
    obtain so' rng' where sh: "std_shuffle lib rng so = (so', rng')"
      by (cases "std_shuffle lib rng so")
    with True "1.prems" obtain i st1 where o: "RunRandom_open K prisoner so' st 0 = Inr (i, st1)"
      by (subst (asm) RunRandom_prisoners.simps) (auto split: sum.splits)
    have f: "boxes_mem st1 = boxes_mem st" using o by (rule RunRandom_open_frame)
    show ?thesis
    proof (cases "i \<noteq> K + 1")
      case True
      with "1.prems" \<open>prisoner < P\<close> sh o f show ?thesis
        by (subst (asm) RunRandom_prisoners.simps) auto
    next
      case False
      with "1.prems" \<open>prisoner < P\<close> sh o
      have "RunRandom_prisoners lib P K rng' so' st1 (prisoner + 1) = Inr (q, st')"
        by (subst (asm) RunRandom_prisoners.simps) simp
      from "1.IH" [OF \<open>prisoner < P\<close> sh [symmetric] o refl False this] f show ?thesis by simp
    qed
  qed
qed

lemma RunMethod_frame: "RunMethod P st = Inr st' \<Longrightarrow> boxes_mem st' = boxes_mem st"
  by (auto simp: RunMethod_def split: sum.splits prod.splits dest: RunMethod_prisoners_frame)

lemma RunRandom_frame: "RunRandom lib P st seed = Inr st' \<Longrightarrow> boxes_mem st' = boxes_mem st"
  by (auto simp: RunRandom_def split: sum.splits prod.splits dest: RunRandom_prisoners_frame)

subsection \<open>The search orders\<close>

lemma shuffled_last:
  "shuffled lib (Suc n) s = std_shuffle lib (snd (shuffled lib n s)) (fst (shuffled lib n s))"
proof (induction n arbitrary: s)
  case 0
  show ?case by simp
next
  case (Suc n)
  have "shuffled lib (Suc (Suc n)) s = shuffled lib (Suc n) (std_shuffle lib (snd s) (fst s))"
    by simp
  also have "\<dots> = std_shuffle lib (snd (shuffled lib n (std_shuffle lib (snd s) (fst s))))
                       (fst (shuffled lib n (std_shuffle lib (snd s) (fst s))))"
    by (rule Suc.IH)
  finally show ?case by simp
qed

lemma search_order_of_mset:
  "shuffle_permutes lib \<Longrightarrow> mset (search_order_of lib P seed p) = mset [0..<P]"
  using shuffled_mset [of lib "Suc p" "([0..<P], std_mt19937_64 lib seed)"]
  by (simp add: search_order_of_def)

lemma RunRandom_open_order:
  assumes "shuffle_permutes lib" and "P \<le> length (boxes_mem st)"
  shows "RunRandom_open (MAX_BOXES_TO_OPEN P) p (search_order_of lib P seed p) st 0 =
     (if random_finds lib P (boxes_mem st) seed p
      then Inr (MAX_BOXES_TO_OPEN P + 1, st\<lparr>succeed := succeed st + 1\<rparr>)
      else Inr (MAX_BOXES_TO_OPEN P, st))"
proof -
  note b = mset_upt_bounds [OF search_order_of_mset [OF assms(1), of P seed p]]
  have k: "MAX_BOXES_TO_OPEN P \<le> length (search_order_of lib P seed p)"
    using b(1) by (simp add: MAX_BOXES_TO_OPEN_def)
  have inb: "\<forall>b \<in> set (search_order_of lib P seed p). b < length (boxes_mem st)"
    using b(2) assms(2) by auto
  from RunRandom_open_char [OF k inb, of 0 p] show ?thesis
    by (simp add: random_finds_def)
qed

subsection \<open>The concrete generators rearrange their input\<close>

lemma mset_rotate1: "mset (rotate1 xs) = mset xs"
  by (cases xs) simp_all

lemma mset_rotate: "mset (rotate n xs) = mset xs"
  by (induction n) (simp_all add: mset_rotate1)

lemma turning_lib_permutes: "shuffle_permutes turning_lib"
  by (simp add: shuffle_permutes_def turning_lib_def mset_rotate mset_rotate1)

lemma still_lib_permutes: "shuffle_permutes still_lib"
  by (simp add: shuffle_permutes_def still_lib_def)

subsection \<open>Permutations survive the shuffle\<close>

lemma is_permutation_mset: "is_permutation P bs \<longleftrightarrow> mset bs = mset [0..<P]"
proof
  assume p: "is_permutation P bs"
  then have "bij_betw (\<lambda>b. bs ! b) {..<P} {..<P}" by (rule is_permutation_bij)
  then have "(\<lambda>b. bs ! b) ` {..<P} = {..<P}" by (simp add: bij_betw_def)
  moreover have "(\<lambda>b. bs ! b) ` {..<P} = set bs"
    using p by (auto simp: is_permutation_def set_conv_nth image_iff)
  ultimately have "set bs = set [0..<P]" by auto
  moreover have "distinct bs" using p by (simp add: is_permutation_def)
  ultimately show "mset bs = mset [0..<P]"
    by (metis set_eq_iff_mset_eq_distinct distinct_upt)
next
  assume "mset bs = mset [0..<P]"
  from mset_upt_bounds [OF this] show "is_permutation P bs"
    by (simp add: is_permutation_def)
qed

lemma RandomiseBoxes_permutation:
  "shuffle_permutes lib \<Longrightarrow> is_permutation P bs \<Longrightarrow> is_permutation P (RandomiseBoxes lib bs seed)"
  by (simp add: is_permutation_mset RandomiseBoxes_def shuffle_permutes_def)

subsection \<open>One trial\<close>

lemma increment_in: "j < length w \<Longrightarrow> increment w j = Inr (w[j := w ! j + 1])"
  by (simp add: increment_def)

lemma Run_trial_char:
  assumes lib: "shuffle_permutes lib" and perm: "is_permutation P (boxes s)"
    and base: "base + 1 < length (won s)"
  shows "Run_trial lib P base s it =
    Inr \<lparr>boxes = RandomiseBoxes lib (boxes s) it,
         won = (let B = RandomiseBoxes lib (boxes s) it;
                    w = (if survivors (random_finds lib P B it) 0 P = P
                         then (won s)[base := won s ! base + 1] else won s)
                in if survivors (method_finds B (MAX_BOXES_TO_OPEN P)) 0 P = P
                   then w[base + 1 := w ! (base + 1) + 1] else w)\<rparr>"
proof -
  let ?B = "RandomiseBoxes lib (boxes s) it"
  have pB: "is_permutation P ?B" using lib perm by (rule RandomiseBoxes_permutation)
  then have len: "P \<le> length ?B" by (simp add: is_permutation_def)
  have rng: "in_range ?B" using pB by (rule is_permutation_in_range)
  have r: "RunRandom lib P \<lparr>boxes_mem = ?B, succeed = 0\<rparr> it =
      Inr \<lparr>boxes_mem = ?B, succeed = 0 + survivors (random_finds lib P ?B it) 0 P\<rparr>"
    using lib len by (rule RunRandom_char)
  have m: "RunMethod P \<lparr>boxes_mem = ?B, succeed = 0\<rparr> =
      Inr \<lparr>boxes_mem = ?B, succeed = 0 + survivors (method_finds ?B (MAX_BOXES_TO_OPEN P)) 0 P\<rparr>"
    using rng len by (rule RunMethod_char)
  have b0: "base < length (won s)" using base by simp
  show ?thesis
    unfolding Run_trial_def Let_def r
    using m b0 base by (simp add: increment_in)
qed

lemma Run_trial_frame:
  assumes "Run_trial lib P base s it = Inr s'"
  shows "\<exists>r m. RunRandom lib P \<lparr>boxes_mem = RandomiseBoxes lib (boxes s) it, succeed = 0\<rparr> it = Inr r
          \<and> boxes_mem r = RandomiseBoxes lib (boxes s) it
          \<and> RunMethod P \<lparr>boxes_mem = RandomiseBoxes lib (boxes s) it, succeed = 0\<rparr> = Inr m
          \<and> boxes_mem m = RandomiseBoxes lib (boxes s) it
          \<and> boxes s' = RandomiseBoxes lib (boxes s) it"
proof -
  let ?B = "RandomiseBoxes lib (boxes s) it"
  from assms obtain r where r: "RunRandom lib P \<lparr>boxes_mem = ?B, succeed = 0\<rparr> it = Inr r"
    by (auto simp: Run_trial_def Let_def split: sum.splits)
  have fr: "boxes_mem r = ?B" using RunRandom_frame [OF r] by simp
  from assms r obtain m where m: "RunMethod P \<lparr>boxes_mem = boxes_mem r, succeed = 0\<rparr> = Inr m"
    by (auto simp: Run_trial_def Let_def split: sum.splits)
  have fm: "boxes_mem m = ?B" using RunMethod_frame [OF m] fr by simp
  from assms r m have "boxes s' = boxes_mem m"
    by (auto simp: Run_trial_def Let_def split: sum.splits if_splits)
  with r m fr fm show ?thesis by auto
qed

subsection \<open>The permutation of a trial\<close>

lemma reshuffled_last:
  "reshuffled lib bs it (Suc n) = RandomiseBoxes lib (reshuffled lib bs it n) (it + n)"
proof (induction n arbitrary: bs it)
  case 0
  show ?case by simp
next
  case (Suc n)
  have "reshuffled lib bs it (Suc (Suc n)) = reshuffled lib (RandomiseBoxes lib bs it) (Suc it) (Suc n)"
    by simp
  also have "\<dots> = RandomiseBoxes lib (reshuffled lib (RandomiseBoxes lib bs it) (Suc it) n) (Suc it + n)"
    by (rule Suc.IH)
  finally show ?case by simp
qed

lemma reshuffled_permutation:
  "shuffle_permutes lib \<Longrightarrow> is_permutation P bs \<Longrightarrow> is_permutation P (reshuffled lib bs it n)"
  by (induction n arbitrary: bs it) (simp_all add: RandomiseBoxes_permutation)

lemma identity_permutation: "is_permutation P [0..<P]"
  by (simp add: is_permutation_def)

lemma trial_boxes_permutation:
  "shuffle_permutes lib \<Longrightarrow> is_permutation P (trial_boxes lib P startVal t)"
  unfolding trial_boxes_def by (simp add: reshuffled_permutation identity_permutation)

lemma trial_boxes_first: "trial_boxes lib P startVal startVal = RandomiseBoxes lib [0..<P] startVal"
  by (simp add: trial_boxes_def)

lemma trial_boxes_next:
  assumes "startVal \<le> t"
  shows "trial_boxes lib P startVal (Suc t) = RandomiseBoxes lib (trial_boxes lib P startVal t) (Suc t)"
proof -
  have "Suc (Suc t) - startVal = Suc (Suc t - startVal)" using assms by simp
  moreover have "startVal + (Suc t - startVal) = Suc t" using assms by simp
  ultimately show ?thesis
    unfolding trial_boxes_def by (simp only: reshuffled_last)
qed

lemma Run_trials_boxes:
  "Run_trials lib P base s it endVal = Inr r \<Longrightarrow> boxes r = reshuffled lib (boxes s) it (endVal - it)"
proof (induction lib P base s it endVal rule: Run_trials.induct)
  case (1 lib P base s it endVal)
  show ?case
  proof (cases "it < endVal")
    case False
    with "1.prems" show ?thesis by (subst (asm) Run_trials.simps) auto
  next
    case True
    with "1.prems" obtain s' where t: "Run_trial lib P base s it = Inr s'"
      by (subst (asm) Run_trials.simps) (auto split: sum.splits)
    with True "1.prems" have rest: "Run_trials lib P base s' (it + 1) endVal = Inr r"
      by (subst (asm) Run_trials.simps) simp
    have b: "boxes s' = RandomiseBoxes lib (boxes s) it"
      using Run_trial_frame [OF t] by blast
    have "endVal - it = Suc (endVal - (it + 1))" using True by simp
    with "1.IH" [OF True t rest] b show ?thesis by simp
  qed
qed

lemma Run_trials_before_trial:
  assumes "startVal \<le> t"
    and "Run_trials lib P base \<lparr>boxes = [0..<P], won = w\<rparr> startVal t = Inr s"
  shows "RandomiseBoxes lib (boxes s) t = trial_boxes lib P startVal t"
proof -
  have "boxes s = reshuffled lib [0..<P] startVal (t - startVal)"
    using Run_trials_boxes [OF assms(2)] by simp
  moreover have "Suc t - startVal = Suc (t - startVal)" using assms(1) by simp
  moreover have "startVal + (t - startVal) = t" using assms(1) by simp
  ultimately show ?thesis
    unfolding trial_boxes_def by (simp only: reshuffled_last)
qed

lemma trial_boxes_depend_on_start:
  assumes "inj (\<lambda>bs. RandomiseBoxes lib bs 1)" and "RandomiseBoxes lib [0..<P] 0 \<noteq> [0..<P]"
  shows "trial_boxes lib P 0 1 \<noteq> trial_boxes lib P 1 1"
proof -
  have a: "trial_boxes lib P 0 1 = RandomiseBoxes lib (RandomiseBoxes lib [0..<P] 0) 1"
    by (simp add: trial_boxes_def)
  have b: "trial_boxes lib P 1 1 = RandomiseBoxes lib [0..<P] 1"
    by (simp add: trial_boxes_def)
  show ?thesis unfolding a b using assms by (auto dest: injD)
qed

subsection \<open>Enumerating the permutations\<close>

lemma interleave_mset: "zs \<in> set (interleave x ys) \<Longrightarrow> mset zs = add_mset x (mset ys)"
  by (induction ys arbitrary: zs) auto

lemma interleave_mem: "as @ x # bs \<in> set (interleave x (as @ bs))"
proof (induction as)
  case Nil
  show ?case by (cases bs) simp_all
next
  case (Cons a as)
  then show ?case by simp
qed

lemma arrangements_mset: "zs \<in> set (arrangements xs) \<Longrightarrow> mset zs = mset xs"
  by (induction xs arbitrary: zs) (auto dest: interleave_mset)

lemma arrangements_mem: "mset zs = mset xs \<Longrightarrow> zs \<in> set (arrangements xs)"
proof (induction xs arbitrary: zs)
  case Nil
  then show ?case by simp
next
  case (Cons x xs)
  have "x \<in> set zs" using Cons.prems by (metis list.set_intros(1) mset_eq_setD)
  then obtain as bs where zs: "zs = as @ x # bs" by (auto dest: split_list)
  with Cons.prems have "mset (as @ bs) = mset xs" by simp
  then have "as @ bs \<in> set (arrangements xs)" by (rule Cons.IH)
  moreover have "zs \<in> set (interleave x (as @ bs))" unfolding zs by (rule interleave_mem)
  ultimately show ?case by auto
qed

lemma arrangements_set: "set (arrangements xs) = {zs. mset zs = mset xs}"
  using arrangements_mset arrangements_mem by blast

lemma arrangements_permutations: "set (arrangements [0..<P]) = {bs. is_permutation P bs}"
  by (simp add: arrangements_set is_permutation_mset)

lemma full_success_iff:
  assumes "is_permutation P bs"
  shows "full_success P bs \<longleftrightarrow> (\<forall>p<P. method_finds bs (MAX_BOXES_TO_OPEN P) p)"
proof -
  have len: "P \<le> length bs" using assms by (simp add: is_permutation_def)
  have rng: "in_range bs" using assms by (rule is_permutation_in_range)
  show ?thesis
    unfolding full_success_def RunMethod_char [OF rng len]
    by (simp add: survivors_full)
qed

lemma full_success_cycles:
  assumes "is_permutation P bs"
  shows "full_success P bs \<longleftrightarrow> cycles_at_most (MAX_BOXES_TO_OPEN P) bs"
proof -
  have len: "length bs = P" using assms by (simp add: is_permutation_def)
  have "cycles_at_most (MAX_BOXES_TO_OPEN P) bs
        \<longleftrightarrow> (\<forall>p<P. \<exists>c. cycle_length bs p = Some c \<and> c \<le> MAX_BOXES_TO_OPEN P)"
  proof
    assume a: "cycles_at_most (MAX_BOXES_TO_OPEN P) bs"
    show "\<forall>p<P. \<exists>c. cycle_length bs p = Some c \<and> c \<le> MAX_BOXES_TO_OPEN P"
    proof (intro allI impI)
      fix p assume "p < P"
      with a have "case cycle_length bs p of None \<Rightarrow> False | Some c \<Rightarrow> c \<le> MAX_BOXES_TO_OPEN P"
        by (simp add: cycles_at_most_def len list_all_iff)
      then show "\<exists>c. cycle_length bs p = Some c \<and> c \<le> MAX_BOXES_TO_OPEN P"
        by (cases "cycle_length bs p") simp_all
    qed
  next
    assume b: "\<forall>p<P. \<exists>c. cycle_length bs p = Some c \<and> c \<le> MAX_BOXES_TO_OPEN P"
    have "case cycle_length bs p of None \<Rightarrow> False | Some c \<Rightarrow> c \<le> MAX_BOXES_TO_OPEN P"
      if "p < P" for p
    proof -
      from b that obtain c where "cycle_length bs p = Some c" "c \<le> MAX_BOXES_TO_OPEN P" by blast
      then show ?thesis by simp
    qed
    then show "cycles_at_most (MAX_BOXES_TO_OPEN P) bs"
      by (simp add: cycles_at_most_def len list_all_iff)
  qed
  also have "\<dots> \<longleftrightarrow> (\<forall>p<P. method_finds bs (MAX_BOXES_TO_OPEN P) p)"
    using method_finds_cycle [OF assms] by auto
  finally show ?thesis using full_success_iff [OF assms] by simp
qed

lemma four: "[0..<4] = [0, 1, 2, 3]"
  by (simp add: upt_rec)

subsection \<open>The counters of the workers\<close>

lemma slots_overlap:
  assumes "1 \<le> pc"
  shows "\<exists>i<pc. slots (thread_base i) \<inter> slots (remainder_base pc) \<noteq> {}"
proof (cases "even pc")
  case True
  then have "thread_base (pc div 2) = remainder_base pc"
    by (auto simp: thread_base_def remainder_base_def)
  moreover have "pc div 2 < pc" using assms by simp
  ultimately show ?thesis by (auto simp: slots_def)
next
  case False
  then have "thread_base (pc div 2) + 1 = remainder_base pc"
    by (auto simp: thread_base_def remainder_base_def elim: oddE)
  moreover have "pc div 2 < pc" using assms by simp
  ultimately show ?thesis by (auto simp: slots_def)
qed

subsection \<open>Runs with the generator that leaves sequences as they are\<close>

lemma still_std_shuffle: "std_shuffle still_lib g (fst s) = s"
  by (cases s) (simp add: still_lib_def)

lemma still_shuffled: "shuffled still_lib n s = s"
  by (induction n arbitrary: s) (simp_all add: still_std_shuffle)

lemma still_RandomiseBoxes: "RandomiseBoxes still_lib bs seed = bs"
  by (simp add: RandomiseBoxes_def still_lib_def)

lemma still_reshuffled: "reshuffled still_lib bs it n = bs"
  by (induction n arbitrary: bs it) (simp_all add: still_RandomiseBoxes)

lemma still_trial_boxes: "trial_boxes still_lib P startVal t = [0..<P]"
  by (simp add: trial_boxes_def still_reshuffled)

lemma still_random_finds:
  "random_finds still_lib P [0..<P] seed p \<longleftrightarrow> p < P div 2"
proof -
  have "take (P div 2) [0..<P] = [0..<P div 2]" by (simp add: take_upt)
  moreover have "map (\<lambda>b. [0..<P] ! b) [0..<P div 2] = [0..<P div 2]"
    by (rule map_idI) simp
  ultimately show ?thesis
    by (simp add: random_finds_def search_order_of_def still_shuffled MAX_BOXES_TO_OPEN_def
        del: shuffled.simps)
qed

lemma identity_method_finds:
  assumes "0 < K" and "p < P"
  shows "method_finds [0..<P] K p"
proof -
  have "0 < (1::nat) \<and> 1 \<le> K \<and> ((\<lambda>b. [0..<P] ! b) ^^ 1) p = p"
    using assms by simp
  then show ?thesis unfolding method_finds_iff by blast
qed

lemma survivors_below: "K \<le> P \<Longrightarrow> survivors (\<lambda>p. p < K) 0 P = K"
proof -
  assume a: "K \<le> P"
  then have "[0..<P] = [0..<K] @ [K..<P]" by (metis upt_add_eq_append le0 le_add_diff_inverse plus_nat.add_0)
  moreover have "takeWhile (\<lambda>p. p < K) [K..<P] = []"
    by (cases "K < P") (simp_all add: upt_conv_Cons)
  moreover have "takeWhile (\<lambda>p. p < K) ([0..<K] @ [K..<P])
                   = [0..<K] @ takeWhile (\<lambda>p. p < K) [K..<P]"
    by (rule takeWhile_append2) simp
  ultimately have "takeWhile (\<lambda>p. p < K) [0..<P] = [0..<K]" by simp
  then show ?thesis by (simp add: survivors_def)
qed

lemma still_RunRandom:
  "RunRandom still_lib P \<lparr>boxes_mem = [0..<P], succeed = n\<rparr> seed
     = Inr \<lparr>boxes_mem = [0..<P], succeed = n + P div 2\<rparr>"
proof -
  have "survivors (random_finds still_lib P [0..<P] seed) 0 P = survivors (\<lambda>p. p < P div 2) 0 P"
    by (rule survivors_cong) (rule still_random_finds)
  also have "\<dots> = P div 2" by (rule survivors_below) simp
  finally show ?thesis
    using RunRandom_char [OF still_lib_permutes, of P "[0..<P]" n seed] by simp
qed

lemma identity_RunMethod:
  assumes "2 \<le> P"
  shows "RunMethod P \<lparr>boxes_mem = [0..<P], succeed = n\<rparr> = Inr \<lparr>boxes_mem = [0..<P], succeed = n + P\<rparr>"
proof -
  have "0 < MAX_BOXES_TO_OPEN P" using assms by (simp add: MAX_BOXES_TO_OPEN_def)
  then have "\<forall>p<P. method_finds [0..<P] (MAX_BOXES_TO_OPEN P) p"
    by (simp add: identity_method_finds)
  then have "survivors (method_finds [0..<P] (MAX_BOXES_TO_OPEN P)) 0 P = P"
    by (simp add: survivors_full)
  moreover have "in_range [0..<P]" by (simp add: in_range_def)
  ultimately show ?thesis
    using RunMethod_char [of "[0..<P]" P n] by simp
qed

lemma still_Run_trial:
  assumes "2 \<le> P" and "base + 1 < length w"
  shows "Run_trial still_lib P base \<lparr>boxes = [0..<P], won = w\<rparr> it
           = Inr \<lparr>boxes = [0..<P], won = w[base + 1 := w ! (base + 1) + 1]\<rparr>"
proof -
  have ne: "P div 2 \<noteq> P" using assms(1) by simp
  show ?thesis
    unfolding Run_trial_def Let_def still_RandomiseBoxes
    using still_RunRandom [of P 0 it] identity_RunMethod [OF assms(1), of 0] ne assms(2)
    by (simp add: increment_in)
qed

lemma still_Run_trials:
  assumes "2 \<le> P" and "base + 1 < length w"
  shows "Run_trials still_lib P base \<lparr>boxes = [0..<P], won = w\<rparr> it endVal
           = Inr \<lparr>boxes = [0..<P], won = w[base + 1 := w ! (base + 1) + (endVal - it)]\<rparr>"
  using assms(2)
proof (induction "endVal - it" arbitrary: it w)
  case 0
  then show ?case by (subst Run_trials.simps) simp
next
  case (Suc k)
  then have lt: "it < endVal" and k: "k = endVal - (it + 1)" by simp_all
  let ?w = "w[base + 1 := w ! (base + 1) + 1]"
  have len: "base + 1 < length ?w" using Suc.prems by simp
  have "Run_trials still_lib P base \<lparr>boxes = [0..<P], won = w\<rparr> it endVal
        = Run_trials still_lib P base \<lparr>boxes = [0..<P], won = ?w\<rparr> (it + 1) endVal"
    using lt still_Run_trial [OF assms(1) Suc.prems, of it]
    by (subst Run_trials.simps) simp
  also have "\<dots> = Inr \<lparr>boxes = [0..<P], won = ?w[base + 1 := ?w ! (base + 1) + (endVal - (it + 1))]\<rparr>"
    using Suc.hyps(1) [OF k len] .
  finally have r: "Run_trials still_lib P base \<lparr>boxes = [0..<P], won = w\<rparr> it endVal
        = Inr \<lparr>boxes = [0..<P], won = ?w[base + 1 := ?w ! (base + 1) + (endVal - (it + 1))]\<rparr>" .
  have a: "?w ! (base + 1) = w ! (base + 1) + 1"
    using Suc.prems by (simp only: nth_list_update_eq)
  have b: "w ! (base + 1) + 1 + (endVal - (it + 1)) = w ! (base + 1) + (endVal - it)"
    using lt by linarith
  have "?w[base + 1 := ?w ! (base + 1) + (endVal - (it + 1))]
        = w[base + 1 := w ! (base + 1) + (endVal - it)]"
    by (simp only: a b list_update_overwrite)
  with r show ?case by (simp only:)
qed

lemma still_Run:
  assumes "2 \<le> P" and "base + 1 < length w"
  shows "Run still_lib P startVal endVal w base
           = Inr (w[base + 1 := w ! (base + 1) + (endVal - startVal)])"
  unfolding Run_def still_Run_trials [OF assms] by simp

lemma still_spawn_three:
  "spawn_threads still_lib 100 333333 3 [0, 0, 0, 0, 0, 0, 0, 0] 0
     = Inr [0, 333333, 0, 333333, 0, 333333, 0, 0]"
  by (simp add: spawn_threads.simps still_Run thread_base_def)

lemma add_up_three:
  "add_up [0, 333333, 0, 333333, 1, 333333, 0, 0] 2 8 = [1, 999999, 0, 333333, 1, 333333, 0, 0]"
  by (simp add: add_up.simps Let_def)

subsection \<open>What main adds up with three threads, for every generator\<close>

lemma Run_trial_wins:
  assumes lib: "shuffle_permutes lib" and perm: "is_permutation P bs"
    and base: "base + 1 < length w"
  shows "Run_trial lib P base \<lparr>boxes = bs, won = w\<rparr> it =
    Inr \<lparr>boxes = RandomiseBoxes lib bs it,
         won = w[base := w ! base + (if random_success lib P (RandomiseBoxes lib bs it) it then 1 else 0),
                 base + 1 := w ! (base + 1) + (if full_success P (RandomiseBoxes lib bs it) then 1 else 0)]\<rparr>"
proof -
  let ?B = "RandomiseBoxes lib bs it"
  have pB: "is_permutation P ?B" using lib perm by (rule RandomiseBoxes_permutation)
  then have len: "P \<le> length ?B" by (simp add: is_permutation_def)
  have rng: "in_range ?B" using pB by (rule is_permutation_in_range)
  have r: "random_success lib P ?B it \<longleftrightarrow> survivors (random_finds lib P ?B it) 0 P = P"
    unfolding random_success_def RunRandom_char [OF lib len] by simp
  have m: "full_success P ?B \<longleftrightarrow> survivors (method_finds ?B (MAX_BOXES_TO_OPEN P)) 0 P = P"
    unfolding full_success_def RunMethod_char [OF rng len] by simp
  have b0: "base < length w" using base by simp
  show ?thesis
    using Run_trial_char [of lib P "\<lparr>boxes = bs, won = w\<rparr>" base it] lib perm base b0
    by (simp add: Let_def r m list_update_swap)
qed

lemma Run_trials_wins:
  assumes lib: "shuffle_permutes lib"
  shows "is_permutation P bs \<Longrightarrow> base + 1 < length w \<Longrightarrow>
    Run_trials lib P base \<lparr>boxes = bs, won = w\<rparr> it (it + n) =
      Inr \<lparr>boxes = reshuffled lib bs it n,
           won = w[base := w ! base + fst (wins lib P bs it n),
                   base + 1 := w ! (base + 1) + snd (wins lib P bs it n)]\<rparr>"
proof (induction n arbitrary: bs w it)
  case 0
  then show ?case by (subst Run_trials.simps) simp
next
  case (Suc n)
  let ?B = "RandomiseBoxes lib bs it"
  let ?a = "if random_success lib P ?B it then 1 else 0 :: nat"
  let ?b = "if full_success P ?B then 1 else 0 :: nat"
  let ?w = "w[base := w ! base + ?a, base + 1 := w ! (base + 1) + ?b]"
  have pB: "is_permutation P ?B" using lib Suc.prems(1) by (rule RandomiseBoxes_permutation)
  have len: "base + 1 < length ?w" using Suc.prems(2) by simp
  have "Run_trials lib P base \<lparr>boxes = bs, won = w\<rparr> it (it + Suc n)
        = Run_trials lib P base \<lparr>boxes = ?B, won = ?w\<rparr> (it + 1) (it + Suc n)"
    using Run_trial_wins [OF lib Suc.prems, of it]
    by (subst Run_trials.simps) simp
  also have "\<dots> = Run_trials lib P base \<lparr>boxes = ?B, won = ?w\<rparr> (Suc it) (Suc it + n)"
    by simp
  also have "\<dots> = Inr \<lparr>boxes = reshuffled lib ?B (Suc it) n,
           won = ?w[base := ?w ! base + fst (wins lib P ?B (Suc it) n),
                   base + 1 := ?w ! (base + 1) + snd (wins lib P ?B (Suc it) n)]\<rparr>"
    using pB len by (rule Suc.IH)
  finally have r: "Run_trials lib P base \<lparr>boxes = bs, won = w\<rparr> it (it + Suc n)
        = Inr \<lparr>boxes = reshuffled lib ?B (Suc it) n,
           won = ?w[base := ?w ! base + fst (wins lib P ?B (Suc it) n),
                   base + 1 := ?w ! (base + 1) + snd (wins lib P ?B (Suc it) n)]\<rparr>" .
  have b0: "base < length w" and b1: "base + 1 < length w" using Suc.prems(2) by simp_all
  have "?w[base := ?w ! base + fst (wins lib P ?B (Suc it) n),
           base + 1 := ?w ! (base + 1) + snd (wins lib P ?B (Suc it) n)]
        = w[base := w ! base + fst (wins lib P bs it (Suc n)),
            base + 1 := w ! (base + 1) + snd (wins lib P bs it (Suc n))]"
    using b0 b1 by (simp add: Let_def list_update_swap [of "Suc base" base] add.assoc)
  with r show ?case by simp
qed

lemma Run_wins:
  assumes "shuffle_permutes lib" and "base + 1 < length w" and "startVal \<le> endVal"
  shows "Run lib P startVal endVal w base =
      Inr (w[base := w ! base + fst (wins lib P [0..<P] startVal (endVal - startVal)),
             base + 1 := w ! (base + 1) + snd (wins lib P [0..<P] startVal (endVal - startVal))])"
proof -
  have "endVal = startVal + (endVal - startVal)" using assms(3) by simp
  then have "Run_trials lib P base \<lparr>boxes = [0..<P], won = w\<rparr> startVal endVal
      = Run_trials lib P base \<lparr>boxes = [0..<P], won = w\<rparr> startVal (startVal + (endVal - startVal))"
    by simp
  then show ?thesis
    unfolding Run_def
    using Run_trials_wins [OF assms(1) identity_permutation assms(2), of P startVal "endVal - startVal"]
    by simp
qed

lemma main_three_threads:
  assumes lib: "shuffle_permutes lib"
  shows "main lib P N 3 =
     (let stepSize = N div 3;
          t0 = wins lib P [0..<P] 0 stepSize;
          t1 = wins lib P [0..<P] stepSize stepSize;
          t2 = wins lib P [0..<P] (stepSize * 2) stepSize;
          rm = wins lib P [0..<P] (stepSize * 3) (N - stepSize * 3)
      in Inr [fst t0 + fst t1 + (fst t2 + snd rm), snd t0 + (snd t1 + fst rm) + snd t2,
              fst t1, snd t1 + fst rm, fst t2 + snd rm, snd t2, 0, 0])"
proof -
  define stepSize where "stepSize = N div 3"
  define t0 where "t0 = wins lib P [0..<P] 0 stepSize"
  define t1 where "t1 = wins lib P [0..<P] stepSize stepSize"
  define t2 where "t2 = wins lib P [0..<P] (stepSize * 2) stepSize"
  define rm where "rm = wins lib P [0..<P] (stepSize * 3) (N - stepSize * 3)"
  have w0: "replicate ((3 + 1) * 2) (0::nat) = [0, 0, 0, 0, 0, 0, 0, 0]"
    by (simp add: numeral_eq_Suc)
  let ?v0 = "[0, 0, 0, 0, 0, 0, 0, 0] :: nat list"
  let ?v1 = "[fst t0, snd t0, 0, 0, 0, 0, 0, 0]"
  let ?v2 = "[fst t0, snd t0, fst t1, snd t1, 0, 0, 0, 0]"
  let ?v3 = "[fst t0, snd t0, fst t1, snd t1, fst t2, snd t2, 0, 0]"
  let ?v4 = "[fst t0, snd t0, fst t1, snd t1 + fst rm, fst t2 + snd rm, snd t2, 0, 0]"
  have n: "stepSize * 0 = 0" "stepSize * (0 + 1) = stepSize" "stepSize * (0 + 1 + 1) = stepSize * 2"
    "stepSize * (0 + 1 + 1 + 1) = stepSize * 3"
    "thread_base 0 = 0" "thread_base (0 + 1) = 2" "thread_base (0 + 1 + 1) = 4"
    "remainder_base 3 = 3"
    by (simp_all add: thread_base_def remainder_base_def)
  have d: "stepSize - 0 = stepSize" "stepSize * 2 - stepSize = stepSize"
    "stepSize * 3 - stepSize * 2 = stepSize"
    by simp_all
  have c: "0 \<le> stepSize" "stepSize \<le> stepSize * 2" "stepSize * 2 \<le> stepSize * 3"
    "stepSize * 3 \<le> N"
    by (simp_all add: stepSize_def)
  have l: "0 + 1 < length ?v0" "2 + 1 < length ?v1" "4 + 1 < length ?v2" "3 + 1 < length ?v3"
    by simp_all
  have u0: "?v0[0 := ?v0 ! 0 + fst t0, 0 + 1 := ?v0 ! (0 + 1) + snd t0] = ?v1" by simp
  have u1: "?v1[2 := ?v1 ! 2 + fst t1, 2 + 1 := ?v1 ! (2 + 1) + snd t1] = ?v2" by simp
  have u2: "?v2[4 := ?v2 ! 4 + fst t2, 4 + 1 := ?v2 ! (4 + 1) + snd t2] = ?v3" by simp
  have u3: "?v3[3 := ?v3 ! 3 + fst rm, 3 + 1 := ?v3 ! (3 + 1) + snd rm] = ?v4" by simp
  have a0: "Run lib P 0 stepSize ?v0 0 = Inr ?v1"
    using Run_wins [OF lib l(1) c(1), of P] by (simp only: d t0_def [symmetric] u0)
  have a1: "Run lib P stepSize (stepSize * 2) ?v1 2 = Inr ?v2"
    using Run_wins [OF lib l(2) c(2), of P] by (simp only: d t1_def [symmetric] u1)
  have a2: "Run lib P (stepSize * 2) (stepSize * 3) ?v2 4 = Inr ?v3"
    using Run_wins [OF lib l(3) c(3), of P] by (simp only: d t2_def [symmetric] u2)
  have ar: "Run lib P (stepSize * 3) N ?v3 3 = Inr ?v4"
    using Run_wins [OF lib l(4) c(4), of P] by (simp only: rm_def [symmetric] u3)
  have sp: "spawn_threads lib P stepSize 3 ?v0 0 = Inr ?v3"
    apply (subst spawn_threads.simps)
    apply (simp only: n a0 sum.case)
    apply (subst spawn_threads.simps)
    apply (simp only: n a1 sum.case)
    apply (subst spawn_threads.simps)
    apply (simp only: n a2 sum.case)
    apply (subst spawn_threads.simps)
    apply simp
    done
  have au: "add_up [fst t0, snd t0, fst t1, snd t1 + fst rm, fst t2 + snd rm, snd t2, 0, 0] 2 8
            = [fst t0 + fst t1 + (fst t2 + snd rm), snd t0 + (snd t1 + fst rm) + snd t2,
               fst t1, snd t1 + fst rm, fst t2 + snd rm, snd t2, 0, 0]"
    by (simp add: add_up.simps Let_def)
  have e: "(3 + 1) * 2 = (8::nat)" by simp
  show ?thesis
    unfolding main_def Let_def w0
    unfolding stepSize_def [symmetric] t0_def [symmetric] t1_def [symmetric] t2_def [symmetric]
      rm_def [symmetric]
    by (simp only: n sp ar au e sum.case)
qed

section \<open>The claims\<close>

text \<open>
  Claim C10. For every array \<open>boxes\<close> of \<open>P\<close> entries that are all less than \<open>P\<close>,
  \<open>RunMethod\<close> reads in bounds only: it returns a result and never the fault
  \<open>OutOfBounds\<close>, every position that a prisoner \<open>p < P\<close> reaches by following the
  chain is less than \<open>P\<close>, and the inner loop returns a result from every position less
  than \<open>P\<close>.
\<close>

theorem RunMethod_reads_in_bounds:
  assumes "length bs = P" and "\<forall>x \<in> set bs. x < P"
  shows "(\<exists>st'. RunMethod P \<lparr>boxes_mem = bs, succeed = s\<rparr> = Inr st')
       \<and> (\<forall>p k. p < P \<longrightarrow> (\<forall>pos \<in> set (opened bs k p). pos < P))
       \<and> (\<forall>K p pos i. pos < P \<and> i \<le> K \<longrightarrow>
             (\<exists>r. RunMethod_open K p \<lparr>boxes_mem = bs, succeed = s\<rparr> pos i = Inr r))"
proof -
  have r: "in_range bs" using assms by (simp add: in_range_def)
  have a: "\<exists>st'. RunMethod P \<lparr>boxes_mem = bs, succeed = s\<rparr> = Inr st'"
    using RunMethod_char [OF r, of P s] assms(1) by simp
  have b: "\<forall>p k. p < P \<longrightarrow> (\<forall>pos \<in> set (opened bs k p). pos < P)"
    using opened_in_range [OF r] assms(1) by simp
  have c: "\<forall>K p pos i. pos < P \<and> i \<le> K \<longrightarrow>
             (\<exists>r. RunMethod_open K p \<lparr>boxes_mem = bs, succeed = s\<rparr> pos i = Inr r)"
  proof (intro allI impI)
    fix K p pos i :: nat assume h: "pos < P \<and> i \<le> K"
    show "\<exists>r. RunMethod_open K p \<lparr>boxes_mem = bs, succeed = s\<rparr> pos i = Inr r"
      using RunMethod_open_char [of "\<lparr>boxes_mem = bs, succeed = s\<rparr>" pos i K p] r h assms(1)
      by auto
  qed
  from a b c show ?thesis by blast
qed

theorem RunMethod_reads_in_bounds_witness:
  "length [1, 2, 0, 3 :: nat] = 4
   \<and> (\<exists>st'. RunMethod 4 \<lparr>boxes_mem = [1, 2, 0, 3], succeed = 0\<rparr> = Inr st')
   \<and> RunMethod 4 \<lparr>boxes_mem = [1, 2, 0, 3], succeed = 0\<rparr>
       = Inr \<lparr>boxes_mem = [1, 2, 0, 3], succeed = 0\<rparr>"
proof -
  have h1: "length [1, 2, 0, 3 :: nat] = 4" by simp
  have h2: "\<forall>x \<in> set [1, 2, 0, 3 :: nat]. x < 4" by simp
  have t: "\<exists>st'. RunMethod 4 \<lparr>boxes_mem = [1, 2, 0, 3], succeed = 0\<rparr> = Inr st'"
    using RunMethod_reads_in_bounds [OF h1 h2, of 0] by (rule conjunct1)
  have e: "RunMethod 4 \<lparr>boxes_mem = [1, 2, 0, 3], succeed = 0\<rparr>
       = Inr \<lparr>boxes_mem = [1, 2, 0, 3], succeed = 0\<rparr>"
    by code_simp
  from h1 t e show ?thesis by (intro conjI)
qed

text \<open>
  Claim C5. \<open>RunMethod\<close> takes the prisoners in order and starts each one at the box
  with the prisoner's own number: at prisoner \<open>p\<close> the loop over the prisoners counts
  \<open>p\<close> and goes on to \<open>p + 1\<close> when \<open>p\<close> finds the number, and returns at once when
  not. The boxes within the prisoner's reach are \<open>p\<close>, the box named by the number in
  \<open>p\<close>, and so on, \<open>K = P div 2\<close> of them at most; the prisoner finds the number
  exactly when it is in one of these boxes, and for a permutation of \<open>[0, P)\<close> that is
  the case exactly when the cycle through \<open>p\<close> has length at most \<open>K\<close>. The counter
  that \<open>RunMethod\<close> returns has grown by the number of prisoners whose cycles are that
  short before the first prisoner with a longer cycle; the whole group succeeds exactly
  when every cycle has length at most \<open>K\<close>.
\<close>

theorem RunMethod_prisoner_follows_cycle:
  assumes "is_permutation P bs" and "p < P" and "boxes_mem st = bs"
  shows "opened bs (MAX_BOXES_TO_OPEN P) p
           = map (\<lambda>j. ((\<lambda>b. bs ! b) ^^ j) p) [0..<MAX_BOXES_TO_OPEN P]
       \<and> RunMethod_open (MAX_BOXES_TO_OPEN P) p st p 0
           = (if method_finds bs (MAX_BOXES_TO_OPEN P) p
              then Inr (MAX_BOXES_TO_OPEN P + 1, st\<lparr>succeed := succeed st + 1\<rparr>)
              else Inr (MAX_BOXES_TO_OPEN P, st))
       \<and> (method_finds bs (MAX_BOXES_TO_OPEN P) p
            \<longleftrightarrow> (\<exists>c. cycle_length bs p = Some c \<and> c \<le> MAX_BOXES_TO_OPEN P))
       \<and> RunMethod_prisoners P (MAX_BOXES_TO_OPEN P) st p
           = (if \<exists>c. cycle_length bs p = Some c \<and> c \<le> MAX_BOXES_TO_OPEN P
              then RunMethod_prisoners P (MAX_BOXES_TO_OPEN P)
                     (st\<lparr>succeed := succeed st + 1\<rparr>) (p + 1)
              else Inr (p, st))
       \<and> RunMethod_prisoners P (MAX_BOXES_TO_OPEN P) st 0
           = Inr (survivors (method_finds bs (MAX_BOXES_TO_OPEN P)) 0 P,
                  st\<lparr>succeed := succeed st
                         + survivors (method_finds bs (MAX_BOXES_TO_OPEN P)) 0 P\<rparr>)
       \<and> RunMethod P st
           = Inr (st\<lparr>succeed := succeed st
                         + survivors (method_finds bs (MAX_BOXES_TO_OPEN P)) 0 P\<rparr>)
       \<and> survivors (method_finds bs (MAX_BOXES_TO_OPEN P)) 0 P \<le> P
       \<and> (\<forall>q. q < survivors (method_finds bs (MAX_BOXES_TO_OPEN P)) 0 P \<longrightarrow>
             (\<exists>c. cycle_length bs q = Some c \<and> c \<le> MAX_BOXES_TO_OPEN P))
       \<and> (survivors (method_finds bs (MAX_BOXES_TO_OPEN P)) 0 P < P \<longrightarrow>
             \<not> (\<exists>c. cycle_length bs (survivors (method_finds bs (MAX_BOXES_TO_OPEN P)) 0 P) = Some c
                    \<and> c \<le> MAX_BOXES_TO_OPEN P))
       \<and> (full_success P bs \<longleftrightarrow> cycles_at_most (MAX_BOXES_TO_OPEN P) bs)"
proof -
  let ?K = "MAX_BOXES_TO_OPEN P"
  let ?s = "survivors (method_finds bs ?K) 0 P"
  have r: "in_range (boxes_mem st)"
    using assms(1,3) by (simp add: is_permutation_in_range)
  have l: "p < length (boxes_mem st)"
    using assms by (simp add: is_permutation_def)
  have len: "P \<le> length (boxes_mem st)"
    using assms(1,3) by (simp add: is_permutation_def)
  have c1: "opened bs ?K p = map (\<lambda>j. ((\<lambda>b. bs ! b) ^^ j) p) [0..<?K]"
    by (rule opened_funpow)
  have c2: "RunMethod_open ?K p st p 0
           = (if method_finds bs ?K p
              then Inr (?K + 1, st\<lparr>succeed := succeed st + 1\<rparr>)
              else Inr (?K, st))"
    using RunMethod_open_char [OF r l, of 0 ?K p] assms(3)
    by (simp add: method_finds_def)
  have c3: "method_finds bs ?K p \<longleftrightarrow> (\<exists>c. cycle_length bs p = Some c \<and> c \<le> ?K)"
    using assms(1,2) by (rule method_finds_cycle)
  have "RunMethod_prisoners P ?K st p
           = (if method_finds bs ?K p
              then RunMethod_prisoners P ?K (st\<lparr>succeed := succeed st + 1\<rparr>) (p + 1)
              else Inr (p, st))"
    using assms(2) c2 by (subst RunMethod_prisoners.simps) simp
  then have c4: "RunMethod_prisoners P ?K st p
           = (if \<exists>c. cycle_length bs p = Some c \<and> c \<le> ?K
              then RunMethod_prisoners P ?K (st\<lparr>succeed := succeed st + 1\<rparr>) (p + 1)
              else Inr (p, st))"
    by (simp only: c3)
  have c5: "RunMethod_prisoners P ?K st 0 = Inr (?s, st\<lparr>succeed := succeed st + ?s\<rparr>)"
    using RunMethod_prisoners_char [OF r len, of ?K 0] assms(3) by simp
  have c6: "RunMethod P st = Inr (st\<lparr>succeed := succeed st + ?s\<rparr>)"
    unfolding RunMethod_def c5 by simp
  have c7: "?s \<le> P"
    using survivors_le [of 0 P "method_finds bs ?K"] by simp
  have c8: "\<forall>q. q < ?s \<longrightarrow> (\<exists>c. cycle_length bs q = Some c \<and> c \<le> ?K)"
  proof (intro allI impI)
    fix q assume q: "q < ?s"
    then have "method_finds bs ?K q"
      using survivors_all [of 0 "method_finds bs ?K" P] by simp
    moreover have "q < P" using q c7 by simp
    ultimately show "\<exists>c. cycle_length bs q = Some c \<and> c \<le> ?K"
      using method_finds_cycle [OF assms(1)] by blast
  qed
  have c9: "?s < P \<longrightarrow> \<not> (\<exists>c. cycle_length bs ?s = Some c \<and> c \<le> ?K)"
  proof
    assume lt: "?s < P"
    then have "\<not> method_finds bs ?K ?s"
      using survivors_stop [of 0 "method_finds bs ?K" P] by simp
    then show "\<not> (\<exists>c. cycle_length bs ?s = Some c \<and> c \<le> ?K)"
      using method_finds_cycle [OF assms(1) lt] by blast
  qed
  have c10: "full_success P bs \<longleftrightarrow> cycles_at_most ?K bs"
    using assms(1) by (rule full_success_cycles)
  from c1 c2 c3 c4 c5 c6 c7 c8 c9 c10 show ?thesis by (intro conjI)
qed

theorem RunMethod_prisoner_follows_cycle_witness:
  "RunMethod 4 \<lparr>boxes_mem = [0, 2, 3, 1], succeed = 0\<rparr>
     = Inr \<lparr>boxes_mem = [0, 2, 3, 1], succeed = 1\<rparr>
   \<and> survivors (method_finds [0, 2, 3, 1] (MAX_BOXES_TO_OPEN 4)) 0 4 = 1
   \<and> cycle_length [0, 2, 3, 1] 0 = Some 1
   \<and> cycle_length [0, 2, 3, 1] 1 = Some 3
   \<and> RunMethod_prisoners 4 (MAX_BOXES_TO_OPEN 4) \<lparr>boxes_mem = [0, 2, 3, 1], succeed = 1\<rparr> 1
     = Inr (1, \<lparr>boxes_mem = [0, 2, 3, 1], succeed = 1\<rparr>)
   \<and> RunMethod_open (MAX_BOXES_TO_OPEN 4) 0 \<lparr>boxes_mem = [0, 2, 3, 1], succeed = 0\<rparr> 0 0
     = Inr (3, \<lparr>boxes_mem = [0, 2, 3, 1], succeed = 1\<rparr>)
   \<and> RunMethod 4 \<lparr>boxes_mem = [1, 2, 0, 3], succeed = 0\<rparr>
     = Inr \<lparr>boxes_mem = [1, 2, 0, 3], succeed = 0\<rparr>
   \<and> RunMethod 4 \<lparr>boxes_mem = [1, 0, 3, 2], succeed = 0\<rparr>
     = Inr \<lparr>boxes_mem = [1, 0, 3, 2], succeed = 4\<rparr>"
proof -
  let ?st1 = "\<lparr>boxes_mem = [0, 2, 3, 1], succeed = 0\<rparr>"
  let ?st1' = "\<lparr>boxes_mem = [0, 2, 3, 1], succeed = 1\<rparr>"
  let ?st2 = "\<lparr>boxes_mem = [1, 2, 0, 3], succeed = 0\<rparr>"
  let ?st3 = "\<lparr>boxes_mem = [1, 0, 3, 2], succeed = 0\<rparr>"
  have p1: "is_permutation 4 [0, 2, 3, 1]" by (simp add: is_permutation_def)
  have p2: "is_permutation 4 [1, 2, 0, 3]" by (simp add: is_permutation_def)
  have p3: "is_permutation 4 [1, 0, 3, 2]" by (simp add: is_permutation_def)
  have l0: "(0::nat) < 4" and l1: "(1::nat) < 4" by simp_all
  have m1: "boxes_mem ?st1 = [0, 2, 3, 1]" and m1': "boxes_mem ?st1' = [0, 2, 3, 1]"
    and m2: "boxes_mem ?st2 = [1, 2, 0, 3]" and m3: "boxes_mem ?st3 = [1, 0, 3, 2]"
    by simp_all
  have s1: "survivors (method_finds [0, 2, 3, 1] (MAX_BOXES_TO_OPEN 4)) 0 4 = 1" by code_simp
  have s2: "survivors (method_finds [1, 2, 0, 3] (MAX_BOXES_TO_OPEN 4)) 0 4 = 0" by code_simp
  have s3: "survivors (method_finds [1, 0, 3, 2] (MAX_BOXES_TO_OPEN 4)) 0 4 = 4" by code_simp
  have f0: "method_finds [0, 2, 3, 1] (MAX_BOXES_TO_OPEN 4) 0" by code_simp
  have c0: "cycle_length [0, 2, 3, 1] 0 = Some 1" by code_simp
  have c1: "cycle_length [0, 2, 3, 1] 1 = Some 3" by code_simp
  have k: "MAX_BOXES_TO_OPEN 4 = 2" by (simp add: MAX_BOXES_TO_OPEN_def)
  have n1: "\<not> (\<exists>c. cycle_length [0, 2, 3, 1] 1 = Some c \<and> c \<le> MAX_BOXES_TO_OPEN 4)"
  proof
    assume "\<exists>c. cycle_length [0, 2, 3, 1] 1 = Some c \<and> c \<le> MAX_BOXES_TO_OPEN 4"
    then obtain c where a: "cycle_length [0, 2, 3, 1] 1 = Some c" and b: "c \<le> MAX_BOXES_TO_OPEN 4"
      by blast
    from a have "Some 3 = Some c" unfolding c1 .
    then have "c = 3" by simp
    with b k show False by simp
  qed
  note t0 = RunMethod_prisoner_follows_cycle [OF p1 l0 m1]
  note t1 = RunMethod_prisoner_follows_cycle [OF p1 l1 m1']
  note t2 = RunMethod_prisoner_follows_cycle [OF p2 l0 m2]
  note t3 = RunMethod_prisoner_follows_cycle [OF p3 l0 m3]
  have "RunMethod 4 ?st1 = Inr (?st1\<lparr>succeed := succeed ?st1
          + survivors (method_finds [0, 2, 3, 1] (MAX_BOXES_TO_OPEN 4)) 0 4\<rparr>)"
    using t0 by blast
  then have a: "RunMethod 4 ?st1 = Inr ?st1'"
    unfolding s1 by simp
  have "RunMethod_prisoners 4 (MAX_BOXES_TO_OPEN 4) ?st1' 1
         = (if \<exists>c. cycle_length [0, 2, 3, 1] 1 = Some c \<and> c \<le> MAX_BOXES_TO_OPEN 4
            then RunMethod_prisoners 4 (MAX_BOXES_TO_OPEN 4)
                   (?st1'\<lparr>succeed := succeed ?st1' + 1\<rparr>) (1 + 1)
            else Inr (1, ?st1'))"
    using t1 by blast
  then have b: "RunMethod_prisoners 4 (MAX_BOXES_TO_OPEN 4) ?st1' 1 = Inr (1, ?st1')"
    using n1 by (simp only: if_False)
  have "RunMethod_open (MAX_BOXES_TO_OPEN 4) 0 ?st1 0 0
         = (if method_finds [0, 2, 3, 1] (MAX_BOXES_TO_OPEN 4) 0
            then Inr (MAX_BOXES_TO_OPEN 4 + 1, ?st1\<lparr>succeed := succeed ?st1 + 1\<rparr>)
            else Inr (MAX_BOXES_TO_OPEN 4, ?st1))"
    using t0 by blast
  then have "RunMethod_open (MAX_BOXES_TO_OPEN 4) 0 ?st1 0 0
         = Inr (MAX_BOXES_TO_OPEN 4 + 1, ?st1\<lparr>succeed := succeed ?st1 + 1\<rparr>)"
    using f0 by (simp only: if_True)
  then have c: "RunMethod_open (MAX_BOXES_TO_OPEN 4) 0 ?st1 0 0 = Inr (3, ?st1')"
    unfolding k by simp
  have "RunMethod 4 ?st2 = Inr (?st2\<lparr>succeed := succeed ?st2
          + survivors (method_finds [1, 2, 0, 3] (MAX_BOXES_TO_OPEN 4)) 0 4\<rparr>)"
    using t2 by blast
  then have d: "RunMethod 4 ?st2 = Inr ?st2"
    unfolding s2 by simp
  have "RunMethod 4 ?st3 = Inr (?st3\<lparr>succeed := succeed ?st3
          + survivors (method_finds [1, 0, 3, 2] (MAX_BOXES_TO_OPEN 4)) 0 4\<rparr>)"
    using t3 by blast
  then have e: "RunMethod 4 ?st3 = Inr \<lparr>boxes_mem = [1, 0, 3, 2], succeed = 4\<rparr>"
    unfolding s3 by simp
  from a s1 c0 c1 b c d e show ?thesis by (intro conjI)
qed

text \<open>
  Claim C9. Neither strategy writes to the array behind \<open>boxes\<close>: whenever
  \<open>RunRandom\<close> or \<open>RunMethod\<close> returns, the array is what it was. Hence in one trial
  both strategies are evaluated on the permutation that \<open>RandomiseBoxes\<close> produced, and
  that permutation is what the next trial shuffles. For a generator that rearranges and a
  permutation both strategies do return.
\<close>

theorem strategies_leave_boxes_unchanged:
  "(RunRandom lib P st seed = Inr st' \<longrightarrow> boxes_mem st' = boxes_mem st)
   \<and> (RunMethod P st = Inr st'' \<longrightarrow> boxes_mem st'' = boxes_mem st)
   \<and> (Run_trial lib P base s it = Inr s' \<longrightarrow>
        (\<exists>r m. RunRandom lib P \<lparr>boxes_mem = RandomiseBoxes lib (boxes s) it, succeed = 0\<rparr> it = Inr r
          \<and> boxes_mem r = RandomiseBoxes lib (boxes s) it
          \<and> RunMethod P \<lparr>boxes_mem = RandomiseBoxes lib (boxes s) it, succeed = 0\<rparr> = Inr m
          \<and> boxes_mem m = RandomiseBoxes lib (boxes s) it
          \<and> boxes s' = RandomiseBoxes lib (boxes s) it))
   \<and> (shuffle_permutes lib \<and> is_permutation P bs \<longrightarrow>
        RunRandom lib P \<lparr>boxes_mem = bs, succeed = n\<rparr> seed
          = Inr \<lparr>boxes_mem = bs, succeed = n + survivors (random_finds lib P bs seed) 0 P\<rparr>
        \<and> RunMethod P \<lparr>boxes_mem = bs, succeed = n\<rparr>
          = Inr \<lparr>boxes_mem = bs, succeed = n + survivors (method_finds bs (MAX_BOXES_TO_OPEN P)) 0 P\<rparr>)"
proof (intro conjI impI)
  assume "RunRandom lib P st seed = Inr st'"
  then show "boxes_mem st' = boxes_mem st" by (rule RunRandom_frame)
next
  assume "RunMethod P st = Inr st''"
  then show "boxes_mem st'' = boxes_mem st" by (rule RunMethod_frame)
next
  assume "Run_trial lib P base s it = Inr s'"
  then show "\<exists>r m. RunRandom lib P \<lparr>boxes_mem = RandomiseBoxes lib (boxes s) it, succeed = 0\<rparr> it = Inr r
          \<and> boxes_mem r = RandomiseBoxes lib (boxes s) it
          \<and> RunMethod P \<lparr>boxes_mem = RandomiseBoxes lib (boxes s) it, succeed = 0\<rparr> = Inr m
          \<and> boxes_mem m = RandomiseBoxes lib (boxes s) it
          \<and> boxes s' = RandomiseBoxes lib (boxes s) it"
    by (rule Run_trial_frame)
next
  assume a: "shuffle_permutes lib \<and> is_permutation P bs"
  then have len: "P \<le> length bs" by (simp add: is_permutation_def)
  have rng: "in_range bs" using a is_permutation_in_range by blast
  show "RunRandom lib P \<lparr>boxes_mem = bs, succeed = n\<rparr> seed
          = Inr \<lparr>boxes_mem = bs, succeed = n + survivors (random_finds lib P bs seed) 0 P\<rparr>"
    using a len by (intro RunRandom_char) simp_all
  show "RunMethod P \<lparr>boxes_mem = bs, succeed = n\<rparr>
          = Inr \<lparr>boxes_mem = bs, succeed = n + survivors (method_finds bs (MAX_BOXES_TO_OPEN P)) 0 P\<rparr>"
    using rng len by (rule RunMethod_char)
qed

theorem strategies_leave_boxes_unchanged_witness:
  "RunRandom turning_lib 4 \<lparr>boxes_mem = [1, 0, 3, 2], succeed = 0\<rparr> 7
     = Inr \<lparr>boxes_mem = [1, 0, 3, 2], succeed = 1\<rparr>
   \<and> boxes_mem \<lparr>boxes_mem = [1, 0, 3, 2], succeed = 1\<rparr> = boxes_mem \<lparr>boxes_mem = [1, 0, 3, 2], succeed = 0\<rparr>
   \<and> RunMethod 4 \<lparr>boxes_mem = [1, 0, 3, 2], succeed = 0\<rparr>
     = Inr \<lparr>boxes_mem = [1, 0, 3, 2], succeed = 4\<rparr>"
proof -
  have e: "RunRandom turning_lib 4 \<lparr>boxes_mem = [1, 0, 3, 2], succeed = 0\<rparr> 7
     = Inr \<lparr>boxes_mem = [1, 0, 3, 2], succeed = 1\<rparr>"
    by code_simp
  have m: "RunMethod 4 \<lparr>boxes_mem = [1, 0, 3, 2], succeed = 0\<rparr>
     = Inr \<lparr>boxes_mem = [1, 0, 3, 2], succeed = 4\<rparr>"
    by code_simp
  have "boxes_mem \<lparr>boxes_mem = [1, 0, 3, 2], succeed = 1\<rparr> = boxes_mem \<lparr>boxes_mem = [1, 0, 3, 2], succeed = 0\<rparr>"
    using strategies_leave_boxes_unchanged
      [of turning_lib 4 "\<lparr>boxes_mem = [1, 0, 3, 2], succeed = 0\<rparr>" 7
          "\<lparr>boxes_mem = [1, 0, 3, 2], succeed = 1\<rparr>"] e
    by blast
  with e m show ?thesis by (intro conjI)
qed

text \<open>
  Claim C6. In \<open>RunRandom\<close> the search order of every prisoner is a rearrangement of
  all \<open>P\<close> boxes, obtained by shuffling the previous prisoner's order (the identity for
  prisoner 0) with the running generator; the prisoner's loop looks only at the first
  \<open>K = P div 2\<close> entries of it and counts the prisoner as successful exactly when one of
  these boxes holds the prisoner's number. The counter returned is therefore the number
  of prisoners that succeed before the first one fails.
\<close>

theorem RunRandom_prisoner_searches_first_K:
  assumes "shuffle_permutes lib" and "length bs = P"
  shows
    "mset (search_order_of lib P seed p) = mset [0..<P]
   \<and> search_order_of lib P seed 0 = fst (std_shuffle lib (std_mt19937_64 lib seed) [0..<P])
   \<and> search_order_of lib P seed (Suc p)
        = fst (std_shuffle lib (snd (shuffled lib (Suc p) ([0..<P], std_mt19937_64 lib seed)))
                 (search_order_of lib P seed p))
   \<and> RunRandom_open (MAX_BOXES_TO_OPEN P) p (search_order_of lib P seed p)
          \<lparr>boxes_mem = bs, succeed = n\<rparr> 0
        = (if p \<in> set (map (\<lambda>b. bs ! b) (take (MAX_BOXES_TO_OPEN P) (search_order_of lib P seed p)))
           then Inr (MAX_BOXES_TO_OPEN P + 1, \<lparr>boxes_mem = bs, succeed = n + 1\<rparr>)
           else Inr (MAX_BOXES_TO_OPEN P, \<lparr>boxes_mem = bs, succeed = n\<rparr>))
   \<and> RunRandom_prisoners lib P (MAX_BOXES_TO_OPEN P) (std_mt19937_64 lib seed) [0..<P]
          \<lparr>boxes_mem = bs, succeed = n\<rparr> 0
        = Inr (survivors (random_finds lib P bs seed) 0 P,
               \<lparr>boxes_mem = bs, succeed = n + survivors (random_finds lib P bs seed) 0 P\<rparr>)
   \<and> RunRandom lib P \<lparr>boxes_mem = bs, succeed = n\<rparr> seed
        = Inr \<lparr>boxes_mem = bs, succeed = n + survivors (random_finds lib P bs seed) 0 P\<rparr>"
proof (intro conjI)
  have len: "P \<le> length bs" using assms(2) by simp
  show "mset (search_order_of lib P seed p) = mset [0..<P]"
    using assms(1) by (rule search_order_of_mset)
  show "search_order_of lib P seed 0 = fst (std_shuffle lib (std_mt19937_64 lib seed) [0..<P])"
    by (simp add: search_order_of_def)
  show "search_order_of lib P seed (Suc p)
        = fst (std_shuffle lib (snd (shuffled lib (Suc p) ([0..<P], std_mt19937_64 lib seed)))
                 (search_order_of lib P seed p))"
    unfolding search_order_of_def
    by (subst shuffled_last) (rule refl)
  show "RunRandom_open (MAX_BOXES_TO_OPEN P) p (search_order_of lib P seed p)
          \<lparr>boxes_mem = bs, succeed = n\<rparr> 0
        = (if p \<in> set (map (\<lambda>b. bs ! b) (take (MAX_BOXES_TO_OPEN P) (search_order_of lib P seed p)))
           then Inr (MAX_BOXES_TO_OPEN P + 1, \<lparr>boxes_mem = bs, succeed = n + 1\<rparr>)
           else Inr (MAX_BOXES_TO_OPEN P, \<lparr>boxes_mem = bs, succeed = n\<rparr>))"
    using RunRandom_open_order [OF assms(1), of P "\<lparr>boxes_mem = bs, succeed = n\<rparr>" p seed] len
    by (simp add: random_finds_def)
  show "RunRandom_prisoners lib P (MAX_BOXES_TO_OPEN P) (std_mt19937_64 lib seed) [0..<P]
          \<lparr>boxes_mem = bs, succeed = n\<rparr> 0
        = Inr (survivors (random_finds lib P bs seed) 0 P,
               \<lparr>boxes_mem = bs, succeed = n + survivors (random_finds lib P bs seed) 0 P\<rparr>)"
    using assms(1) len by (rule RunRandom_prisoners_start)
  show "RunRandom lib P \<lparr>boxes_mem = bs, succeed = n\<rparr> seed
        = Inr \<lparr>boxes_mem = bs, succeed = n + survivors (random_finds lib P bs seed) 0 P\<rparr>"
    using assms(1) len by (rule RunRandom_char)
qed

theorem RunRandom_prisoner_searches_first_K_witness:
  "search_order_of turning_lib 4 1 0 = [2, 3, 0, 1]
   \<and> RunRandom_open (MAX_BOXES_TO_OPEN 4) 0 (search_order_of turning_lib 4 1 0)
          \<lparr>boxes_mem = [1, 2, 0, 3], succeed = 0\<rparr> 0
        = Inr (MAX_BOXES_TO_OPEN 4 + 1, \<lparr>boxes_mem = [1, 2, 0, 3], succeed = 0 + 1\<rparr>)
   \<and> search_order_of turning_lib 4 1 1 = [1, 2, 3, 0]
   \<and> RunRandom_open (MAX_BOXES_TO_OPEN 4) 1 (search_order_of turning_lib 4 1 1)
          \<lparr>boxes_mem = [1, 2, 0, 3], succeed = 1\<rparr> 0
        = Inr (MAX_BOXES_TO_OPEN 4, \<lparr>boxes_mem = [1, 2, 0, 3], succeed = 1\<rparr>)"
proof -
  have len: "length [1, 2, 0, 3 :: nat] = 4" by simp
  have o0: "search_order_of turning_lib 4 1 0 = [2, 3, 0, 1]" by code_simp
  have o1: "search_order_of turning_lib 4 1 1 = [1, 2, 3, 0]" by code_simp
  have k: "MAX_BOXES_TO_OPEN 4 = 2" by (simp add: MAX_BOXES_TO_OPEN_def)
  have c0: "(0::nat) \<in> set (map (\<lambda>b. [1, 2, 0, 3 :: nat] ! b)
               (take (MAX_BOXES_TO_OPEN 4) (search_order_of turning_lib 4 1 0)))"
    by code_simp
  have c1: "(1::nat) \<notin> set (map (\<lambda>b. [1, 2, 0, 3 :: nat] ! b)
               (take (MAX_BOXES_TO_OPEN 4) (search_order_of turning_lib 4 1 1)))"
    by code_simp
  have "RunRandom_open (MAX_BOXES_TO_OPEN 4) 0 (search_order_of turning_lib 4 1 0)
          \<lparr>boxes_mem = [1, 2, 0, 3], succeed = 0\<rparr> 0
        = (if (0::nat) \<in> set (map (\<lambda>b. [1, 2, 0, 3 :: nat] ! b)
               (take (MAX_BOXES_TO_OPEN 4) (search_order_of turning_lib 4 1 0)))
           then Inr (MAX_BOXES_TO_OPEN 4 + 1, \<lparr>boxes_mem = [1, 2, 0, 3], succeed = 0 + 1\<rparr>)
           else Inr (MAX_BOXES_TO_OPEN 4, \<lparr>boxes_mem = [1, 2, 0, 3], succeed = 0\<rparr>))"
    using RunRandom_prisoner_searches_first_K [OF turning_lib_permutes len, of 1 0 0]
    by blast
  then have a: "RunRandom_open (MAX_BOXES_TO_OPEN 4) 0 (search_order_of turning_lib 4 1 0)
          \<lparr>boxes_mem = [1, 2, 0, 3], succeed = 0\<rparr> 0
        = Inr (MAX_BOXES_TO_OPEN 4 + 1, \<lparr>boxes_mem = [1, 2, 0, 3], succeed = 0 + 1\<rparr>)"
    using c0 by (simp only: if_True)
  have "RunRandom_open (MAX_BOXES_TO_OPEN 4) 1 (search_order_of turning_lib 4 1 1)
          \<lparr>boxes_mem = [1, 2, 0, 3], succeed = 1\<rparr> 0
        = (if (1::nat) \<in> set (map (\<lambda>b. [1, 2, 0, 3 :: nat] ! b)
               (take (MAX_BOXES_TO_OPEN 4) (search_order_of turning_lib 4 1 1)))
           then Inr (MAX_BOXES_TO_OPEN 4 + 1, \<lparr>boxes_mem = [1, 2, 0, 3], succeed = 1 + 1\<rparr>)
           else Inr (MAX_BOXES_TO_OPEN 4, \<lparr>boxes_mem = [1, 2, 0, 3], succeed = 1\<rparr>))"
    using RunRandom_prisoner_searches_first_K [OF turning_lib_permutes len, of 1 1 1]
    by blast
  then have b: "RunRandom_open (MAX_BOXES_TO_OPEN 4) 1 (search_order_of turning_lib 4 1 1)
          \<lparr>boxes_mem = [1, 2, 0, 3], succeed = 1\<rparr> 0
        = Inr (MAX_BOXES_TO_OPEN 4, \<lparr>boxes_mem = [1, 2, 0, 3], succeed = 1\<rparr>)"
    using c1 by (simp only: if_False)
  from o0 a o1 b show ?thesis by (intro conjI)
qed

text \<open>
  Claim C7. Both strategies stop at the first prisoner that fails: if some prisoner
  fails, the loop over the prisoners returns with its loop variable at the first failing
  prisoner \<open>q < P\<close>, so no later prisoner is evaluated, and the counter returned is
  \<open>q\<close>, less than \<open>P\<close>. In the trial the counter of that strategy is then left as it
  was.
\<close>

theorem strategies_short_circuit:
  assumes "shuffle_permutes lib" and "is_permutation P bs"
  shows
    "((\<exists>p<P. \<not> method_finds bs (MAX_BOXES_TO_OPEN P) p) \<longrightarrow>
        (\<exists>q<P. \<not> method_finds bs (MAX_BOXES_TO_OPEN P) q
           \<and> (\<forall>r<q. method_finds bs (MAX_BOXES_TO_OPEN P) r)
           \<and> RunMethod_prisoners P (MAX_BOXES_TO_OPEN P) \<lparr>boxes_mem = bs, succeed = 0\<rparr> 0
                = Inr (q, \<lparr>boxes_mem = bs, succeed = q\<rparr>)
           \<and> RunMethod P \<lparr>boxes_mem = bs, succeed = 0\<rparr> = Inr \<lparr>boxes_mem = bs, succeed = q\<rparr>))
   \<and> ((\<exists>p<P. \<not> random_finds lib P bs seed p) \<longrightarrow>
        (\<exists>q<P. \<not> random_finds lib P bs seed q
           \<and> (\<forall>r<q. random_finds lib P bs seed r)
           \<and> RunRandom_prisoners lib P (MAX_BOXES_TO_OPEN P) (std_mt19937_64 lib seed) [0..<P]
                \<lparr>boxes_mem = bs, succeed = 0\<rparr> 0
                = Inr (q, \<lparr>boxes_mem = bs, succeed = q\<rparr>)
           \<and> RunRandom lib P \<lparr>boxes_mem = bs, succeed = 0\<rparr> seed
                = Inr \<lparr>boxes_mem = bs, succeed = q\<rparr>))
   \<and> (base + 1 < length w \<longrightarrow>
        (\<exists>w'. Run_trial lib P base \<lparr>boxes = bs, won = w\<rparr> it
                = Inr \<lparr>boxes = RandomiseBoxes lib bs it, won = w'\<rparr>
           \<and> ((\<exists>p<P. \<not> random_finds lib P (RandomiseBoxes lib bs it) it p)
                 \<longrightarrow> w' ! base = w ! base)
           \<and> ((\<exists>p<P. \<not> method_finds (RandomiseBoxes lib bs it) (MAX_BOXES_TO_OPEN P) p)
                 \<longrightarrow> w' ! (base + 1) = w ! (base + 1))))"
proof (intro conjI impI)
  let ?K = "MAX_BOXES_TO_OPEN P"
  have len: "P \<le> length bs" using assms(2) by (simp add: is_permutation_def)
  have rng: "in_range bs" using assms(2) by (rule is_permutation_in_range)
  {
    assume a: "\<exists>p<P. \<not> method_finds bs ?K p"
    let ?q = "survivors (method_finds bs ?K) 0 P"
    note f = survivors_first_failure [OF a]
    have "RunMethod_prisoners P ?K \<lparr>boxes_mem = bs, succeed = 0\<rparr> 0
            = Inr (?q, \<lparr>boxes_mem = bs, succeed = ?q\<rparr>)"
      using RunMethod_prisoners_char [of "\<lparr>boxes_mem = bs, succeed = 0\<rparr>" P ?K 0] rng len
      by simp
    moreover have "RunMethod P \<lparr>boxes_mem = bs, succeed = 0\<rparr> = Inr \<lparr>boxes_mem = bs, succeed = ?q\<rparr>"
      using RunMethod_char [OF rng len, of 0] by simp
    ultimately show "\<exists>q<P. \<not> method_finds bs ?K q
           \<and> (\<forall>r<q. method_finds bs ?K r)
           \<and> RunMethod_prisoners P ?K \<lparr>boxes_mem = bs, succeed = 0\<rparr> 0
                = Inr (q, \<lparr>boxes_mem = bs, succeed = q\<rparr>)
           \<and> RunMethod P \<lparr>boxes_mem = bs, succeed = 0\<rparr> = Inr \<lparr>boxes_mem = bs, succeed = q\<rparr>"
      using f by blast
  }
  {
    assume a: "\<exists>p<P. \<not> random_finds lib P bs seed p"
    let ?q = "survivors (random_finds lib P bs seed) 0 P"
    note f = survivors_first_failure [OF a]
    have "RunRandom_prisoners lib P ?K (std_mt19937_64 lib seed) [0..<P]
             \<lparr>boxes_mem = bs, succeed = 0\<rparr> 0 = Inr (?q, \<lparr>boxes_mem = bs, succeed = ?q\<rparr>)"
      using RunRandom_prisoners_start [OF assms(1) len, of seed 0] by simp
    moreover have "RunRandom lib P \<lparr>boxes_mem = bs, succeed = 0\<rparr> seed
                = Inr \<lparr>boxes_mem = bs, succeed = ?q\<rparr>"
      using RunRandom_char [OF assms(1) len, of 0 seed] by simp
    ultimately show "\<exists>q<P. \<not> random_finds lib P bs seed q
           \<and> (\<forall>r<q. random_finds lib P bs seed r)
           \<and> RunRandom_prisoners lib P ?K (std_mt19937_64 lib seed) [0..<P]
                \<lparr>boxes_mem = bs, succeed = 0\<rparr> 0
                = Inr (q, \<lparr>boxes_mem = bs, succeed = q\<rparr>)
           \<and> RunRandom lib P \<lparr>boxes_mem = bs, succeed = 0\<rparr> seed
                = Inr \<lparr>boxes_mem = bs, succeed = q\<rparr>"
      using f by blast
  }
  {
    assume b: "base + 1 < length w"
    let ?B = "RandomiseBoxes lib bs it"
    let ?w1 = "if survivors (random_finds lib P ?B it) 0 P = P then w[base := w ! base + 1] else w"
    let ?w2 = "if survivors (method_finds ?B ?K) 0 P = P
               then ?w1[base + 1 := ?w1 ! (base + 1) + 1] else ?w1"
    have t: "Run_trial lib P base \<lparr>boxes = bs, won = w\<rparr> it = Inr \<lparr>boxes = ?B, won = ?w2\<rparr>"
      using Run_trial_char [of lib P "\<lparr>boxes = bs, won = w\<rparr>" base it] assms b
      by (simp add: Let_def)
    have r: "(\<exists>p<P. \<not> random_finds lib P ?B it p) \<longrightarrow> ?w2 ! base = w ! base"
      using b by (auto simp: survivors_full)
    have m: "(\<exists>p<P. \<not> method_finds ?B ?K p) \<longrightarrow> ?w2 ! (base + 1) = w ! (base + 1)"
      using b by (auto simp: survivors_full)
    from t r m show "\<exists>w'. Run_trial lib P base \<lparr>boxes = bs, won = w\<rparr> it
                = Inr \<lparr>boxes = ?B, won = w'\<rparr>
           \<and> ((\<exists>p<P. \<not> random_finds lib P ?B it p) \<longrightarrow> w' ! base = w ! base)
           \<and> ((\<exists>p<P. \<not> method_finds ?B ?K p) \<longrightarrow> w' ! (base + 1) = w ! (base + 1))"
      by blast
  }
qed

theorem strategies_short_circuit_witness:
  "(\<exists>q<4. \<not> method_finds [1, 2, 0, 3] (MAX_BOXES_TO_OPEN 4) q
       \<and> RunMethod 4 \<lparr>boxes_mem = [1, 2, 0, 3], succeed = 0\<rparr>
            = Inr \<lparr>boxes_mem = [1, 2, 0, 3], succeed = q\<rparr>)
   \<and> (\<exists>q<4. \<not> random_finds turning_lib 4 [1, 2, 0, 3] 1 q
       \<and> RunRandom turning_lib 4 \<lparr>boxes_mem = [1, 2, 0, 3], succeed = 0\<rparr> 1
            = Inr \<lparr>boxes_mem = [1, 2, 0, 3], succeed = q\<rparr>)
   \<and> \<not> method_finds [1, 2, 0, 3] (MAX_BOXES_TO_OPEN 4) 0
   \<and> \<not> random_finds turning_lib 4 [1, 2, 0, 3] 1 1"
proof -
  have perm: "is_permutation 4 [1, 2, 0, 3]" by (simp add: is_permutation_def)
  have m0: "\<not> method_finds [1, 2, 0, 3] (MAX_BOXES_TO_OPEN 4) 0" by code_simp
  have r0: "\<not> random_finds turning_lib 4 [1, 2, 0, 3] 1 1" by code_simp
  have hm: "\<exists>p<4. \<not> method_finds [1, 2, 0, 3] (MAX_BOXES_TO_OPEN 4) p"
    using m0 by (intro exI [of _ 0]) simp
  have hr: "\<exists>p<4. \<not> random_finds turning_lib 4 [1, 2, 0, 3] 1 p"
    using r0 by (intro exI [of _ 1]) simp
  note t = strategies_short_circuit [OF turning_lib_permutes perm, of 1 0 "[0, 0]" 0]
  have a: "\<exists>q<4. \<not> method_finds [1, 2, 0, 3] (MAX_BOXES_TO_OPEN 4) q
       \<and> RunMethod 4 \<lparr>boxes_mem = [1, 2, 0, 3], succeed = 0\<rparr>
            = Inr \<lparr>boxes_mem = [1, 2, 0, 3], succeed = q\<rparr>"
    using t hm by blast
  have b: "\<exists>q<4. \<not> random_finds turning_lib 4 [1, 2, 0, 3] 1 q
       \<and> RunRandom turning_lib 4 \<lparr>boxes_mem = [1, 2, 0, 3], succeed = 0\<rparr> 1
            = Inr \<lparr>boxes_mem = [1, 2, 0, 3], succeed = q\<rparr>"
    using t hr by blast
  from a b m0 r0 show ?thesis by (intro conjI)
qed

text \<open>
  Claim C4. For a generator whose shuffle rearranges its input, \<open>RandomiseBoxes\<close> turns
  every permutation of \<open>[0, P)\<close> into a permutation of \<open>[0, P)\<close>, for every seed: the
  entries of the result are a bijection on \<open>[0, P)\<close>. \<open>Run\<close> starts from the identity,
  which is a permutation, so the vector of every trial, and the vector that the loop over
  the trials ends with, is a permutation.
\<close>

theorem RandomiseBoxes_keeps_permutation:
  assumes "shuffle_permutes lib"
  shows "(is_permutation P bs \<longrightarrow>
           is_permutation P (RandomiseBoxes lib bs seed)
           \<and> bij_betw (\<lambda>i. RandomiseBoxes lib bs seed ! i) {..<P} {..<P})
       \<and> is_permutation P [0..<P]
       \<and> is_permutation P (trial_boxes lib P startVal t)
       \<and> (Run_trials lib P base \<lparr>boxes = [0..<P], won = w\<rparr> startVal endVal = Inr r
            \<longrightarrow> is_permutation P (boxes r))"
proof (intro conjI impI)
  assume p: "is_permutation P bs"
  show q: "is_permutation P (RandomiseBoxes lib bs seed)"
    using assms p by (rule RandomiseBoxes_permutation)
  show "bij_betw (\<lambda>i. RandomiseBoxes lib bs seed ! i) {..<P} {..<P}"
    using q by (rule is_permutation_bij)
next
  show "is_permutation P [0..<P]" by (rule identity_permutation)
  show "is_permutation P (trial_boxes lib P startVal t)"
    using assms by (rule trial_boxes_permutation)
next
  assume "Run_trials lib P base \<lparr>boxes = [0..<P], won = w\<rparr> startVal endVal = Inr r"
  then have "boxes r = reshuffled lib [0..<P] startVal (endVal - startVal)"
    using Run_trials_boxes by fastforce
  then show "is_permutation P (boxes r)"
    using reshuffled_permutation [OF assms identity_permutation] by simp
qed

theorem RandomiseBoxes_keeps_permutation_witness:
  "is_permutation 4 (RandomiseBoxes turning_lib [1, 2, 0, 3] 5)
   \<and> RandomiseBoxes turning_lib [1, 2, 0, 3] 5 = [0, 3, 1, 2]
   \<and> is_permutation 4 (trial_boxes turning_lib 4 2 3)
   \<and> trial_boxes turning_lib 4 2 3 = [3, 0, 1, 2]"
proof -
  have p: "is_permutation 4 [1, 2, 0, 3]" by (simp add: is_permutation_def)
  note t = RandomiseBoxes_keeps_permutation [OF turning_lib_permutes, of 4 "[1, 2, 0, 3]" 5 2 3]
  have a: "is_permutation 4 (RandomiseBoxes turning_lib [1, 2, 0, 3] 5)"
    using t p by blast
  have b: "is_permutation 4 (trial_boxes turning_lib 4 2 3)"
    using t by blast
  have c: "RandomiseBoxes turning_lib [1, 2, 0, 3] 5 = [0, 3, 1, 2]" by code_simp
  have d: "trial_boxes turning_lib 4 2 3 = [3, 0, 1, 2]" by code_simp
  from a c b d show ?thesis by (intro conjI)
qed

text \<open>
  Claim C2, as the code has it. The generator that shuffles in trial \<open>t\<close> is seeded with
  \<open>t\<close> alone, but it shuffles the vector that the previous trial of the same call of
  \<open>Run\<close> left: the permutation of the first trial of a range is the shuffle of the
  identity, and the permutation of every later trial is the shuffle, with its own seed, of
  the permutation of the trial before it. The permutation of trial \<open>t\<close> thus depends on
  \<open>t\<close> and on where the range of the worker starts. The second theorem below refutes
  the claim as stated: with \<open>turning_lib\<close> trial 1 sees one permutation in a range that
  starts at 0 and another one in a range that starts at 1.
\<close>

theorem trial_permutation_from_previous_trial:
  "trial_boxes lib P startVal startVal = RandomiseBoxes lib [0..<P] startVal
   \<and> (startVal \<le> t \<longrightarrow>
        trial_boxes lib P startVal (Suc t)
          = RandomiseBoxes lib (trial_boxes lib P startVal t) (Suc t))
   \<and> (startVal \<le> t \<and> Run_trials lib P base \<lparr>boxes = [0..<P], won = w\<rparr> startVal t = Inr s
        \<longrightarrow> RandomiseBoxes lib (boxes s) t = trial_boxes lib P startVal t)"
  using trial_boxes_first [of lib P startVal] trial_boxes_next [of startVal t lib P]
    Run_trials_before_trial [of startVal t lib P base w s]
  by blast

theorem trial_permutation_from_previous_trial_witness:
  "trial_boxes turning_lib 4 0 1 = RandomiseBoxes turning_lib (trial_boxes turning_lib 4 0 0) 1
   \<and> trial_boxes turning_lib 4 0 0 = [1, 2, 3, 0]
   \<and> trial_boxes turning_lib 4 0 1 = [3, 0, 1, 2]"
proof -
  have h: "(0::nat) \<le> 0" by simp
  have a: "trial_boxes turning_lib 4 0 1 = RandomiseBoxes turning_lib (trial_boxes turning_lib 4 0 0) 1"
    using trial_permutation_from_previous_trial [of turning_lib 4 0 0] h by simp
  have b: "trial_boxes turning_lib 4 0 0 = [1, 2, 3, 0]" by code_simp
  have c: "trial_boxes turning_lib 4 0 1 = [3, 0, 1, 2]" by code_simp
  from a b c show ?thesis by (intro conjI)
qed

theorem trial_permutation_not_from_index_alone:
  "trial_boxes turning_lib 100 0 1 \<noteq> trial_boxes turning_lib 100 1 1
   \<and> trial_boxes turning_lib 100 0 1 ! 0 = 3
   \<and> trial_boxes turning_lib 100 1 1 ! 0 = 2"
  by code_simp

text \<open>
  Claim C8. For \<open>P = 4\<close>, hence \<open>K = 2\<close>: \<open>arrangements [0, 1, 2, 3]\<close> lists the 24
  permutations of \<open>[0, 4)\<close>; the cycle-following strategy is a success of the whole
  group on such a permutation exactly when all its cycles have length at most 2; the
  permutations on which it succeeds are the ten listed, the involutions, so that the
  success rate over all permutations is 10 out of 24.
\<close>

theorem cycle_method_on_four_boxes:
  "MAX_BOXES_TO_OPEN 4 = 2
   \<and> set (arrangements [0, 1, 2, 3]) = {bs. is_permutation 4 bs}
   \<and> card {bs. is_permutation 4 bs} = 24
   \<and> (\<forall>bs. is_permutation 4 bs \<longrightarrow>
         (full_success 4 bs \<longleftrightarrow> cycles_at_most (MAX_BOXES_TO_OPEN 4) bs))
   \<and> filter (full_success 4) (arrangements [0, 1, 2, 3])
       = [[0, 1, 2, 3], [1, 0, 2, 3], [0, 2, 1, 3], [2, 1, 0, 3], [2, 3, 0, 1],
          [0, 1, 3, 2], [1, 0, 3, 2], [3, 1, 2, 0], [0, 3, 2, 1], [3, 2, 1, 0]]
   \<and> card {bs. is_permutation 4 bs \<and> full_success 4 bs} = 10"
proof -
  have k: "MAX_BOXES_TO_OPEN 4 = 2" by (simp add: MAX_BOXES_TO_OPEN_def)
  have s: "set (arrangements [0, 1, 2, 3]) = {bs. is_permutation 4 bs}"
    using arrangements_permutations [of 4] by (simp only: four)
  have d: "distinct (arrangements [0, 1, 2, 3 :: nat])" by code_simp
  have l: "length (arrangements [0, 1, 2, 3 :: nat]) = 24" by code_simp
  have "card (set (arrangements [0, 1, 2, 3 :: nat])) = 24"
    using distinct_card [OF d] by (simp only: l)
  then have c: "card {bs. is_permutation 4 bs} = 24"
    by (simp only: s)
  have e: "\<forall>bs. is_permutation 4 bs \<longrightarrow>
         (full_success 4 bs \<longleftrightarrow> cycles_at_most (MAX_BOXES_TO_OPEN 4) bs)"
    using full_success_cycles by blast
  have f: "filter (full_success 4) (arrangements [0, 1, 2, 3])
       = [[0, 1, 2, 3], [1, 0, 2, 3], [0, 2, 1, 3], [2, 1, 0, 3], [2, 3, 0, 1],
          [0, 1, 3, 2], [1, 0, 3, 2], [3, 1, 2, 0], [0, 3, 2, 1], [3, 2, 1, 0]]"
    by code_simp
  have "set (filter (full_success 4) (arrangements [0, 1, 2, 3]))
        = {bs \<in> set (arrangements [0, 1, 2, 3]). full_success 4 bs}"
    by (rule set_filter)
  also have "\<dots> = {bs. is_permutation 4 bs \<and> full_success 4 bs}"
    unfolding s by blast
  finally have "{bs. is_permutation 4 bs \<and> full_success 4 bs}
        = set (filter (full_success 4) (arrangements [0, 1, 2, 3]))"
    by (rule sym)
  moreover have "distinct (filter (full_success 4) (arrangements [0, 1, 2, 3]))"
    using d by (rule distinct_filter)
  ultimately have "card {bs. is_permutation 4 bs \<and> full_success 4 bs}
        = length (filter (full_success 4) (arrangements [0, 1, 2, 3]))"
    by (simp only: distinct_card)
  then have g: "card {bs. is_permutation 4 bs \<and> full_success 4 bs} = 10"
    by (simp only: f) simp
  from k s c e f g show ?thesis by (intro conjI)
qed

theorem cycle_method_on_four_boxes_witness:
  "full_success 4 [1, 0, 3, 2] \<and> cycles_at_most (MAX_BOXES_TO_OPEN 4) [1, 0, 3, 2]
   \<and> \<not> full_success 4 [1, 2, 0, 3] \<and> \<not> cycles_at_most (MAX_BOXES_TO_OPEN 4) [1, 2, 0, 3]"
proof -
  have p1: "is_permutation 4 [1, 0, 3, 2]" by (simp add: is_permutation_def)
  have p2: "is_permutation 4 [1, 2, 0, 3]" by (simp add: is_permutation_def)
  have c1: "cycles_at_most (MAX_BOXES_TO_OPEN 4) [1, 0, 3, 2]" by code_simp
  have c2: "\<not> cycles_at_most (MAX_BOXES_TO_OPEN 4) [1, 2, 0, 3]" by code_simp
  have a: "full_success 4 [1, 0, 3, 2]"
    using cycle_method_on_four_boxes p1 c1 by blast
  have b: "\<not> full_success 4 [1, 2, 0, 3]"
    using cycle_method_on_four_boxes p2 c2 by blast
  from a c1 b c2 show ?thesis by (intro conjI)
qed

text \<open>
  Claim C3 fails on the code. Thread \<open>i\<close> is given \<open>&won[i * 2]\<close> and the remainder run
  \<open>&won[processor_count]\<close>, not \<open>&won[processor_count * 2]\<close>: for two threads the
  remainder run writes the very counters 2 and 3 of thread 1, for one thread it shares
  counter 1 with thread 0, for three threads counter 3 with thread 1 and counter 4 with
  thread 2. Lemma \<open>slots_overlap\<close> shows an overlap for every processor count.
\<close>

theorem remainder_shares_slots_with_a_thread:
  "remainder_base 2 = thread_base 1
   \<and> slots (thread_base 1) \<inter> slots (remainder_base 2) = {2, 3}
   \<and> slots (thread_base 0) \<inter> slots (remainder_base 1) = {1}
   \<and> slots (thread_base 1) \<inter> slots (remainder_base 3) = {3}
   \<and> slots (thread_base 2) \<inter> slots (remainder_base 3) = {4}"
  by (auto simp: slots_def thread_base_def remainder_base_def)

text \<open>
  Claim C1 fails on the code, by the same index. With three threads the remainder run is
  \<open>Run(999999, 1000000, &won[3])\<close>: its random-search counter is entry 3, which the last
  loop of \<open>main\<close> adds to the total of the cycle-following strategy, and its
  cycle-following counter is entry 4, which is added to the total of the random search.
  Evaluated with \<open>still_lib\<close>, where every trial is the identity permutation, lost by the
  random search (prisoner 50 fails) and won by the cycle-following strategy: the totals
  are 1 and 999999 where 0 and 1000000 trials were won. Lemma \<open>main_three_threads\<close>
  gives the totals for every generator that rearranges.
\<close>

theorem remainder_wins_swapped_for_three_threads:
  "main still_lib 100 1000000 3 = Inr [1, 999999, 0, 333333, 1, 333333, 0, 0]
   \<and> (\<forall>startVal t. trial_boxes still_lib 100 startVal t = [0..<100])
   \<and> (\<forall>seed. RunRandom still_lib 100 \<lparr>boxes_mem = [0..<100], succeed = 0\<rparr> seed
          = Inr \<lparr>boxes_mem = [0..<100], succeed = 50\<rparr>)
   \<and> RunMethod 100 \<lparr>boxes_mem = [0..<100], succeed = 0\<rparr>
          = Inr \<lparr>boxes_mem = [0..<100], succeed = 100\<rparr>"
proof -
  have w0: "replicate ((3 + 1) * 2) (0::nat) = [0, 0, 0, 0, 0, 0, 0, 0]"
    by (simp add: numeral_eq_Suc)
  have r: "Run still_lib 100 999999 1000000 [0, 333333, 0, 333333, 0, 333333, 0, 0]
             (remainder_base 3)
           = Inr [0, 333333, 0, 333333, 1, 333333, 0, 0]"
    by (simp add: still_Run remainder_base_def)
  have d: "1000000 div 3 = (333333::nat)" "333333 * 3 = (999999::nat)" "(3 + 1) * 2 = (8::nat)"
    by simp_all
  have m: "main still_lib 100 1000000 3 = Inr [1, 999999, 0, 333333, 1, 333333, 0, 0]"
    unfolding main_def Let_def w0
    by (simp only: d still_spawn_three r add_up_three sum.case)
  have b: "\<forall>startVal t. trial_boxes still_lib 100 startVal t = [0..<100]"
    by (simp add: still_trial_boxes)
  have rr: "\<forall>seed. RunRandom still_lib 100 \<lparr>boxes_mem = [0..<100], succeed = 0\<rparr> seed
          = Inr \<lparr>boxes_mem = [0..<100], succeed = 50\<rparr>"
    using still_RunRandom [of 100 0] by simp
  have rm: "RunMethod 100 \<lparr>boxes_mem = [0..<100], succeed = 0\<rparr>
          = Inr \<lparr>boxes_mem = [0..<100], succeed = 100\<rparr>"
    using identity_RunMethod [of 100 0] by simp
  from m b rr rm show ?thesis by (intro conjI)
qed

end
